theory Spec2Isabelle
  imports Main
begin

section \<open>Data model of packages/backend/src/Node.ts\<close>

text \<open>
  \<^verbatim>\<open>Maybe<T>\<close> is \<^verbatim>\<open>T | null | undefined\<close>. The three cases are kept apart because
  \<^verbatim>\<open>String(this.address)\<close> tells them apart.
\<close>

datatype 'a Maybe = Null | Undefined | Just 'a

text \<open>The errors the handlers can throw.\<close>

datatype error = TypeError | SyntaxError

text \<open>
  Block numbers are JavaScript numbers, that is IEEE doubles, holding integers. The model
  takes them as integers and computes \<open>from - 1\<close> exactly. That is what the code computes
  when \<open>from\<close> is a safe integer (\<^verbatim>\<open>Number.isSafeInteger\<close>, at most \<open>2^53 - 1\<close> in absolute
  value); above \<open>2^53\<close> the subtraction of the code rounds, so every statement about the
  height that \<^verbatim>\<open>backfill\<close> returns or looks up through \<open>from - 1\<close> is made for safe
  integers only. Comparisons and equality of representable integers are exact in both.
\<close>

definition safe_integer :: "int \<Rightarrow> bool" where
  "safe_integer n = (- 9007199254740991 \<le> n \<and> n \<le> 9007199254740991)"

text \<open>\<^verbatim>\<open>new Block(number, hash)\<close>.\<close>

record Block =
  number :: int
  hash :: string

text \<open>
  Modelled from the spec: \<^verbatim>\<open>Block.ZERO\<close> lives in Block.ts; its zero value is height 0 with
  the empty hash.
\<close>

definition Block_ZERO :: Block where
  "Block_ZERO = \<lparr>number = 0, hash = ''''\<rparr>"

text \<open>
  \<^verbatim>\<open>Types.ConsensusInfo\<close>: an object created as \<^verbatim>\<open>{}\<close> whose flags are only ever assigned
  \<^verbatim>\<open>true\<close> and only ever read for truthiness, so a missing flag is \<open>False\<close>.
\<close>

record ConsensusInfo =
  Prevote :: bool
  ImplicitPrevote :: bool
  Precommit :: bool
  ImplicitPrecommit :: bool
  Finalized :: bool
  ImplicitFinalized :: bool
  FinalizedHash :: "string option"
  FinalizedHeight :: "int option"
  ImplicitPointer :: "int option"

definition empty_info :: ConsensusInfo where
  "empty_info = \<lparr>Prevote = False, ImplicitPrevote = False, Precommit = False,
     ImplicitPrecommit = False, Finalized = False, ImplicitFinalized = False,
     FinalizedHash = None, FinalizedHeight = None, ImplicitPointer = None\<rparr>"

text \<open>
  One row of the consensus view: voter address to \<open>ConsensusInfo\<close>. The key order of a row
  is never observed by Node.ts, so a row is a map. (Addresses that name a member of
  \<^verbatim>\<open>Object.prototype\<close>, for which \<^verbatim>\<open>addr in row\<close> is true on an empty row, are outside
  this model.)
\<close>

type_synonym row = "string \<rightharpoonup> ConsensusInfo"

text \<open>
  \<^verbatim>\<open>consensusCache\<close>: a JavaScript object keyed by block number. \<^verbatim>\<open>Object.keys\<close> is
  observed (its length, its first element, its reversal), so the cache is an association
  list kept in the order \<^verbatim>\<open>Object.keys\<close> reports: keys that are array indices
  (\<open>0 .. 2^32 - 2\<close>) first, ascending; every other key after them, in order of creation.
\<close>

type_synonym cache = "(int \<times> row) list"

definition is_index :: "int \<Rightarrow> bool" where
  "is_index h = (0 \<le> h \<and> h < 4294967295)"

definition keys :: "cache \<Rightarrow> int list" where
  "keys c = map fst c"

text \<open>\<^verbatim>\<open>cache[h]\<close>: \<open>None\<close> is \<^verbatim>\<open>undefined\<close>.\<close>

definition lookup :: "cache \<Rightarrow> int \<Rightarrow> row option" where
  "lookup c h = map_of c h"

text \<open>\<^verbatim>\<open>cache[h] = r\<close> for a key that does not exist yet.\<close>

fun create_row :: "int \<Rightarrow> row \<Rightarrow> cache \<Rightarrow> cache" where
  "create_row h r [] = [(h, r)]"
| "create_row h r ((k, x) # c) =
     (if is_index h \<and> (\<not> is_index k \<or> h < k) then (h, r) # (k, x) # c
      else (k, x) # create_row h r c)"

text \<open>Mutation of the row object stored under an existing key: the key keeps its place.\<close>

fun set_row :: "int \<Rightarrow> row \<Rightarrow> cache \<Rightarrow> cache" where
  "set_row h r [] = []"
| "set_row h r ((k, x) # c) = (if k = h then (k, r) # c else (k, x) # set_row h r c)"

text \<open>\<^verbatim>\<open>delete cache[k]\<close>.\<close>

definition delete_row :: "int \<Rightarrow> cache \<Rightarrow> cache" where
  "delete_row k c = filter (\<lambda>p. fst p \<noteq> k) c"

text \<open>JavaScript truthiness of a \<^verbatim>\<open>Maybe<string>\<close>, and \<^verbatim>\<open>String(v)\<close>.\<close>

fun truthy :: "string Maybe \<Rightarrow> bool" where
  "truthy Null = False"
| "truthy Undefined = False"
| "truthy (Just s) = (s \<noteq> '''')"

fun String_of :: "string Maybe \<Rightarrow> string" where
  "String_of Null = ''null''"
| "String_of Undefined = ''undefined''"
| "String_of (Just s) = s"

section \<open>The consensus view\<close>

text \<open>\<^verbatim>\<open>initialiseConsensusView(height, addr)\<close>.\<close>

definition initialiseConsensusView :: "int \<Rightarrow> string Maybe \<Rightarrow> cache \<Rightarrow> cache" where
  "initialiseConsensusView height addr c =
     (let c1 = (if lookup c height = None then create_row height Map.empty c else c)
      in if truthy addr
         then (case lookup c1 height of
                 None \<Rightarrow> c1
               | Some r \<Rightarrow>
                   if r (String_of addr) = None
                   then set_row height (r(String_of addr \<mapsto> empty_info)) c1
                   else c1)
         else c1)"

text \<open>
  The continuation function handed to \<^verbatim>\<open>backfill\<close>: a closure over the session that reads
  and writes the consensus cache, returns a boolean, and may throw.
\<close>

type_synonym predicate = "int \<Rightarrow> cache \<Rightarrow> (error \<times> cache) + (bool \<times> cache)"

text \<open>
  The loop of \<^verbatim>\<open>backfill\<close>, \<^verbatim>\<open>while (cont && from-- > 0) { ... }\<close>. When \<open>cont\<close> is false
  the decrement is not evaluated; when \<open>cont\<close> is true and the test fails, \<open>from\<close> has been
  decremented all the same.
\<close>

function backfill_loop ::
  "string Maybe \<Rightarrow> predicate option \<Rightarrow> int option \<Rightarrow> bool \<Rightarrow> int \<Rightarrow> cache
     \<Rightarrow> (error \<times> cache) + (int \<times> cache)" where
  "backfill_loop voter f firstBlockNumber cont from c =
     (if cont then
        (if from > 0 then
           (let i = from - 1 in
            if lookup c i \<noteq> None then Inr (i, c)
            else (let c1 = initialiseConsensusView i voter c in
                  case (case f of None \<Rightarrow> Inr (True, c1) | Some g \<Rightarrow> g i c1) of
                    Inl e \<Rightarrow> Inl e
                  | Inr (cont', c2) \<Rightarrow>
                      if Some i = firstBlockNumber then Inr (i, c2)
                      else backfill_loop voter f firstBlockNumber cont' i c2))
         else Inr (from - 1, c))
      else Inr (from, c))"
  by pat_completeness auto
termination
  by (relation "measure (\<lambda>(voter, f, firstBlockNumber, cont, from, c). nat from)") auto

declare backfill_loop.simps [simp del]

text \<open>
  \<^verbatim>\<open>backfill(voter, from, f)\<close>, on the consensus cache (the only state it touches). Its
  \<open>from - 1\<close> and the decrement of the loop are exact; they are those of the code for a safe
  integer \<open>from\<close>.
\<close>

definition backfill ::
  "string Maybe \<Rightarrow> int \<Rightarrow> predicate option \<Rightarrow> cache \<Rightarrow> (error \<times> cache) + (int \<times> cache)" where
  "backfill voter from f c =
     (if \<not> truthy voter then Inr (from, c)
      else if length (keys c) \<le> 1 then Inr (from, c)
      else if lookup c (from - 1) = None then Inr (from, c)
      else backfill_loop voter f (case keys c of [] \<Rightarrow> None | k # _ \<Rightarrow> Some k) True from c)"

text \<open>
  \<^verbatim>\<open>cache[h][v].field = ...\<close>, for one or several assignments in a row to the same record:
  a \<^verbatim>\<open>TypeError\<close> when the row or the record is \<^verbatim>\<open>undefined\<close>.
\<close>

definition update_info ::
  "int \<Rightarrow> string \<Rightarrow> (ConsensusInfo \<Rightarrow> ConsensusInfo) \<Rightarrow> cache \<Rightarrow> (error \<times> cache) + cache" where
  "update_info h v g c =
     (case lookup c h of
        None \<Rightarrow> Inl (TypeError, c)
      | Some r \<Rightarrow>
          (case r v of
             None \<Rightarrow> Inl (TypeError, c)
           | Some info \<Rightarrow> Inr (set_row h (r(v \<mapsto> g info)) c)))"

text \<open>\<^verbatim>\<open>markFinalized\<close> and \<^verbatim>\<open>markImplicitlyFinalized\<close>, for a session whose address is \<open>addr\<close>.\<close>

definition markFinalized :: "string Maybe \<Rightarrow> int \<Rightarrow> string \<Rightarrow> cache \<Rightarrow> (error \<times> cache) + cache" where
  "markFinalized addr finalizedHeight finalizedHash c =
     update_info finalizedHeight (String_of addr)
       (\<lambda>info. info\<lparr>Finalized := True, FinalizedHash := Some finalizedHash,
                    FinalizedHeight := Some finalizedHeight,
                    Prevote := True, Precommit := True\<rparr>)
       (initialiseConsensusView finalizedHeight addr c)"

definition markImplicitlyFinalized :: "string Maybe \<Rightarrow> int \<Rightarrow> cache \<Rightarrow> (error \<times> cache) + cache" where
  "markImplicitlyFinalized addr finalizedHeight c =
     update_info finalizedHeight (String_of addr)
       (\<lambda>info. info\<lparr>Finalized := True, FinalizedHeight := Some finalizedHeight,
                    ImplicitFinalized := True,
                    Prevote := True, Precommit := True,
                    ImplicitPrevote := True, ImplicitPrecommit := True\<rparr>)
       (initialiseConsensusView finalizedHeight addr c)"

text \<open>The three closures handed to \<^verbatim>\<open>backfill\<close> by the vote and finality handlers.\<close>

definition mutate_precommit :: "string \<Rightarrow> int \<Rightarrow> predicate" where
  "mutate_precommit voter from i c =
     (case lookup c i of
        None \<Rightarrow> Inl (TypeError, c)
      | Some r \<Rightarrow>
          (case r voter of
             None \<Rightarrow> Inl (TypeError, c)
           | Some info \<Rightarrow>
               if Precommit info \<or> ImplicitPrecommit info then Inr (False, c)
               else Inr (True, set_row i
                      (r(voter \<mapsto> info\<lparr>ImplicitPrecommit := True, ImplicitPointer := Some from\<rparr>)) c)))"

definition mutate_prevote :: "string \<Rightarrow> int \<Rightarrow> predicate" where
  "mutate_prevote voter from i c =
     (case lookup c i of
        None \<Rightarrow> Inl (TypeError, c)
      | Some r \<Rightarrow>
          (case r voter of
             None \<Rightarrow> Inl (TypeError, c)
           | Some info \<Rightarrow>
               if Prevote info \<or> ImplicitPrevote info then Inr (False, c)
               else Inr (True, set_row i
                      (r(voter \<mapsto> info\<lparr>ImplicitPrevote := True, ImplicitPointer := Some from\<rparr>)) c)))"

definition mutate_finalized :: "string Maybe \<Rightarrow> int \<Rightarrow> predicate" where
  "mutate_finalized addr to i c =
     (case lookup c i of
        None \<Rightarrow> Inl (TypeError, c)
      | Some r \<Rightarrow>
          (case r (String_of addr) of
             None \<Rightarrow> Inl (TypeError, c)
           | Some info \<Rightarrow>
               if Finalized info \<or> ImplicitFinalized info then Inr (False, c)
               else (case markImplicitlyFinalized addr i c of
                       Inl e \<Rightarrow> Inl e
                     | Inr c1 \<Rightarrow>
                         (case update_info i (String_of addr)
                                 (\<lambda>info. info\<lparr>ImplicitPointer := Some to\<rparr>) c1 of
                            Inl e \<Rightarrow> Inl e
                          | Inr c2 \<Rightarrow> Inr (True, c2)))))"

section \<open>Messages, events and the collaborators of the session\<close>

text \<open>\<^verbatim>\<open>BestBlock\<close>: \<^verbatim>\<open>{ height, ts, best }\<close>; a \<^verbatim>\<open>Date\<close> is its millisecond value.\<close>

record BestBlock =
  bb_height :: int
  bb_ts :: int
  bb_best :: string

text \<open>The fields of \<^verbatim>\<open>system.interval\<close> that \<^verbatim>\<open>onSystemInterval\<close> reads.\<close>

record SystemInterval =
  msg_network_state :: "string option"
  msg_peers :: int
  msg_txcount :: int
  msg_cpu :: "int option"
  msg_memory :: "int option"
  bandwidth_download :: int
  bandwidth_upload :: int
  finalized_height :: "int option"
  finalized_hash :: "string option"

datatype Message =
    MsgSystemInterval SystemInterval
  | MsgNotifyFinalized (nf_best: string) (nf_height: int)
  | MsgAfgFinalized (finalized_number: int) (af_finalized_hash: string)
  | MsgAfgReceivedPrecommit (pc_target_number: int) (pc_target_hash: string) (pc_voter: string)
  | MsgAfgReceivedPrevote (pv_target_number: int) (pv_target_hash: string) (pv_voter: string)
  | MsgAfgAuthoritySet (authority_set_id: int) (as_hash: string) (as_number: int)
      (as_authorities: string)
  | MsgOther

datatype Event =
    EvDisconnect
  | EvStats
  | EvFinalized
  | EvHardware
  | EvBlock
  | EvConsensusInfo
  | EvAuthoritySetChanged "string list" int int string

text \<open>The calls made on the WebSocket, and whether the listeners of the session are attached.\<close>

datatype SocketCall = RemoveAllListeners | Close | Terminate | Ping

record Socket =
  listeners :: bool
  calls :: "SocketCall list"

text \<open>
  What Node.ts imports and does not define: the constant of Chain.ts, \<^verbatim>\<open>getBestBlock\<close> of
  message.ts, the JSON built-ins (\<open>None\<close> is a thrown \<^verbatim>\<open>SyntaxError\<close>), and the boolean that
  \<^verbatim>\<open>MeanList.push\<close> returns, as a function of the values pushed before and the new one.
\<close>

record deps =
  MAX_BLOCKS_IN_CHAIN_CACHE :: nat
  getBestBlock :: "Message \<Rightarrow> BestBlock option"
  JSON_parse :: "string \<Rightarrow> string list option"
  JSON_stringify :: "string list \<Rightarrow> string"
  MeanList_push :: "int list \<Rightarrow> int \<Rightarrow> bool"

definition MAX_BLOCKS_IN_NODE_CACHE :: "deps \<Rightarrow> nat" where
  "MAX_BLOCKS_IN_NODE_CACHE d = MAX_BLOCKS_IN_CHAIN_CACHE d"

definition TIMEOUT :: int where
  "TIMEOUT = 1000 * 60 * 1"

section \<open>The node session\<close>

text \<open>
  The fields of \<^verbatim>\<open>Node\<close> that the handlers read or write, the events emitted so far (oldest
  first) and the pending callbacks of \<^verbatim>\<open>setTimeout\<close> (their due times). A \<^verbatim>\<open>MeanList\<close> or
  \<^verbatim>\<open>NumStats\<close> is the list of the values pushed into it.
\<close>

record Node =
  address :: "string Maybe"
  networkState :: "string option"
  lastMessage :: int
  best :: Block
  finalized :: Block
  latency :: int
  blockTime :: int
  blockTimestamp :: int
  peers :: int
  txcount :: int
  memory :: "int list"
  cpu :: "int list"
  upload :: "int list"
  download :: "int list"
  chartstamps :: "int list"
  blockTimes :: "int list"
  lastBlockAt :: "int option"
  pingStart :: int
  throttle :: bool
  consensusCache :: cache
  authorities :: "string list"
  authoritySetId :: int
  socket :: Socket
  events :: "Event list"
  timers :: "int list"

text \<open>The constructor, at clock reading \<open>now\<close>, with the listeners attached.\<close>

definition new_Node :: "int \<Rightarrow> string Maybe \<Rightarrow> Node" where
  "new_Node now addr =
     \<lparr>address = addr, networkState = None, lastMessage = now,
      best = Block_ZERO, finalized = Block_ZERO, latency = 0, blockTime = 0,
      blockTimestamp = 0, peers = 0, txcount = 0, memory = [], cpu = [], upload = [],
      download = [], chartstamps = [], blockTimes = [], lastBlockAt = None, pingStart = 0,
      throttle = False, consensusCache = [], authorities = [], authoritySetId = 0,
      socket = \<lparr>listeners = True, calls = []\<rparr>, events = [], timers = []\<rparr>"

definition emit :: "Event \<Rightarrow> Node \<Rightarrow> Node" where
  "emit e n = n\<lparr>events := events n @ [e]\<rparr>"

text \<open>\<^verbatim>\<open>disconnect\<close>.\<close>

definition disconnect :: "Node \<Rightarrow> Node" where
  "disconnect n =
     emit EvDisconnect
       (n\<lparr>socket := (socket n)\<lparr>listeners := False,
             calls := calls (socket n) @ [RemoveAllListeners, Close, Terminate]\<rparr>\<rparr>)"

text \<open>\<^verbatim>\<open>updateLatency\<close>; \<open>ping_throws\<close> says whether \<^verbatim>\<open>socket.ping\<close> throws.\<close>

definition updateLatency :: "int \<Rightarrow> bool \<Rightarrow> Node \<Rightarrow> Node" where
  "updateLatency now ping_throws n =
     (let n1 = n\<lparr>pingStart := now,
                 socket := (socket n)\<lparr>calls := calls (socket n) @ [Ping]\<rparr>\<rparr>
      in if ping_throws then disconnect n1 else n1)"

definition timeoutCheck :: "int \<Rightarrow> bool \<Rightarrow> Node \<Rightarrow> Node" where
  "timeoutCheck now ping_throws n =
     (if lastMessage n + TIMEOUT < now then disconnect n
      else updateLatency now ping_throws n)"

definition getBlockTime :: "int \<Rightarrow> Node \<Rightarrow> int" where
  "getBlockTime time n = (case lastBlockAt n of None \<Rightarrow> 0 | Some t \<Rightarrow> time - t)"

text \<open>The callback of the one-second timer started by \<^verbatim>\<open>updateBestBlock\<close>.\<close>

definition block_timer_callback :: "Node \<Rightarrow> Node" where
  "block_timer_callback n = (emit EvBlock n)\<lparr>throttle := False\<rparr>"

text \<open>
  \<^verbatim>\<open>updateBestBlock\<close>; \<open>now\<close> is the clock reading of \<^verbatim>\<open>timestamp()\<close>, also taken as the
  time at which \<^verbatim>\<open>setTimeout\<close> is called.
\<close>

definition updateBestBlock :: "int \<Rightarrow> BestBlock \<Rightarrow> Node \<Rightarrow> (error \<times> Node) + Node" where
  "updateBestBlock now update n =
     (if hash (best n) \<noteq> bb_best update \<and> number (best n) \<le> bb_height update then
        (let blockTime' = getBlockTime (bb_ts update) n;
             n1 = n\<lparr>best := \<lparr>number = bb_height update, hash = bb_best update\<rparr>,
                    blockTimestamp := now,
                    lastBlockAt := Some (bb_ts update),
                    blockTimes := blockTimes n @ [blockTime'],
                    blockTime := blockTime'\<rparr>;
             n2 = (if blockTime' > 100 then emit EvBlock n1
                   else if \<not> throttle n1
                        then n1\<lparr>throttle := True, timers := timers n1 @ [now + 1000]\<rparr>
                        else n1);
             target = number (best n2)
         in case backfill (address n2) target None (consensusCache n2) of
              Inl (e, c) \<Rightarrow> Inl (e, n2\<lparr>consensusCache := c\<rparr>)
            | Inr (i, c) \<Rightarrow> Inr (n2\<lparr>consensusCache := c\<rparr>))
      else Inr n)"

text \<open>\<^verbatim>\<open>onSystemInterval\<close>: its four blocks, in the order of the source.\<close>

definition si_network_state :: "SystemInterval \<Rightarrow> Node \<Rightarrow> Node" where
  "si_network_state message n =
     (if networkState n \<noteq> msg_network_state message
         \<and> msg_network_state message \<noteq> None \<and> msg_network_state message \<noteq> Some []
      then n\<lparr>networkState := msg_network_state message\<rparr> else n)"

definition si_stats :: "SystemInterval \<Rightarrow> Node \<Rightarrow> Node" where
  "si_stats message n =
     (if peers n \<noteq> msg_peers message \<or> txcount n \<noteq> msg_txcount message
      then emit EvStats (n\<lparr>peers := msg_peers message, txcount := msg_txcount message\<rparr>)
      else n)"

definition si_finalized :: "SystemInterval \<Rightarrow> Node \<Rightarrow> Node" where
  "si_finalized message n =
     (case finalized_height message of
        None \<Rightarrow> n
      | Some fin \<Rightarrow>
          (case finalized_hash message of
             None \<Rightarrow> n
           | Some finalizedHash \<Rightarrow>
               if fin > number (finalized n)
               then emit EvFinalized (n\<lparr>finalized := \<lparr>number = fin, hash = finalizedHash\<rparr>\<rparr>)
               else n))"

definition si_hardware :: "deps \<Rightarrow> int \<Rightarrow> SystemInterval \<Rightarrow> Node \<Rightarrow> Node" where
  "si_hardware d now message n =
     (case msg_cpu message of
        None \<Rightarrow> n
      | Some cpu' \<Rightarrow>
          (case msg_memory message of
             None \<Rightarrow> n
           | Some memory' \<Rightarrow>
               (let cpuChange = MeanList_push d (cpu n) cpu';
                    memChange = MeanList_push d (memory n) memory';
                    uploadChange = MeanList_push d (upload n) (bandwidth_upload message);
                    downloadChange = MeanList_push d (download n) (bandwidth_download message);
                    stampChange = MeanList_push d (chartstamps n) now;
                    n1 = n\<lparr>cpu := cpu n @ [cpu'],
                           memory := memory n @ [memory'],
                           upload := upload n @ [bandwidth_upload message],
                           download := download n @ [bandwidth_download message],
                           chartstamps := chartstamps n @ [now]\<rparr>
                in if cpuChange \<or> memChange \<or> uploadChange \<or> downloadChange \<or> stampChange
                   then emit EvHardware n1 else n1)))"

definition onSystemInterval :: "deps \<Rightarrow> int \<Rightarrow> SystemInterval \<Rightarrow> Node \<Rightarrow> Node" where
  "onSystemInterval d now message n =
     si_hardware d now message
       (si_finalized message (si_stats message (si_network_state message n)))"

text \<open>Running a step on the cache of a session; a throw keeps the cache reached.\<close>

definition on_cache :: "Node \<Rightarrow> (error \<times> cache) + cache \<Rightarrow> (error \<times> Node) + Node" where
  "on_cache n r =
     (case r of
        Inl (e, c) \<Rightarrow> Inl (e, n\<lparr>consensusCache := c\<rparr>)
      | Inr c \<Rightarrow> Inr (n\<lparr>consensusCache := c\<rparr>))"

definition drop_value :: "(error \<times> cache) + ('a \<times> cache) \<Rightarrow> (error \<times> cache) + cache" where
  "drop_value r = (case r of Inl e \<Rightarrow> Inl e | Inr (x, c) \<Rightarrow> Inr c)"

definition and_then ::
  "(error \<times> 's) + 's \<Rightarrow> ('s \<Rightarrow> (error \<times> 's) + 's) \<Rightarrow> (error \<times> 's) + 's" where
  "and_then r k = (case r of Inl e \<Rightarrow> Inl e | Inr s \<Rightarrow> k s)"

text \<open>\<^verbatim>\<open>onNotifyFinalized\<close>.\<close>

definition onNotifyFinalized :: "string \<Rightarrow> int \<Rightarrow> Node \<Rightarrow> (error \<times> Node) + Node" where
  "onNotifyFinalized best' height n =
     and_then
       (on_cache n
          (update_info height (String_of (address n)) (\<lambda>info. info\<lparr>FinalizedHash := Some best'\<rparr>)
             (initialiseConsensusView height (address n) (consensusCache n))))
       (\<lambda>n1. Inr (emit EvConsensusInfo n1))"

text \<open>\<^verbatim>\<open>extractVoter\<close>: every double quote is removed.\<close>

definition extractVoter :: "string \<Rightarrow> string" where
  "extractVoter message_voter = filter (\<lambda>ch. ch \<noteq> CHR 0x22) message_voter"

text \<open>\<^verbatim>\<open>onAfgReceivedPrecommit\<close> and \<^verbatim>\<open>onAfgReceivedPrevote\<close>.\<close>

definition onAfgReceivedPrecommit :: "int \<Rightarrow> string \<Rightarrow> Node \<Rightarrow> (error \<times> Node) + Node" where
  "onAfgReceivedPrecommit targetNumber message_voter n =
     (let voter = extractVoter message_voter;
          from = targetNumber
      in and_then
           (on_cache n
              (and_then
                 (update_info targetNumber voter (\<lambda>info. info\<lparr>Precommit := True\<rparr>)
                    (initialiseConsensusView targetNumber (Just voter) (consensusCache n)))
                 (\<lambda>c. drop_value (backfill (Just voter) from (Some (mutate_precommit voter from)) c))))
           (\<lambda>n1. Inr (emit EvConsensusInfo n1)))"

definition onAfgReceivedPrevote :: "int \<Rightarrow> string \<Rightarrow> Node \<Rightarrow> (error \<times> Node) + Node" where
  "onAfgReceivedPrevote targetNumber message_voter n =
     (let voter = extractVoter message_voter;
          from = targetNumber
      in and_then
           (on_cache n
              (and_then
                 (update_info targetNumber voter (\<lambda>info. info\<lparr>Prevote := True\<rparr>)
                    (initialiseConsensusView targetNumber (Just voter) (consensusCache n)))
                 (\<lambda>c. drop_value (backfill (Just voter) from (Some (mutate_prevote voter from)) c))))
           (\<lambda>n1. Inr (emit EvConsensusInfo n1)))"

text \<open>\<^verbatim>\<open>onAfgAuthoritySet\<close>.\<close>

definition onAfgAuthoritySet ::
  "deps \<Rightarrow> int \<Rightarrow> string \<Rightarrow> int \<Rightarrow> string \<Rightarrow> Node \<Rightarrow> (error \<times> Node) + Node" where
  "onAfgAuthoritySet d authoritySetId' hash' number' message_authorities n =
     (case JSON_parse d message_authorities of
        None \<Rightarrow> Inl (SyntaxError, n)
      | Some authorities' \<Rightarrow>
          (let n1 = (if JSON_stringify d (authorities n) \<noteq> message_authorities
                        \<or> authoritySetId n \<noteq> authoritySetId'
                     then emit (EvAuthoritySetChanged authorities' authoritySetId' number' hash') n
                     else n)
           in Inr (n1\<lparr>authorities := authorities'\<rparr>)))"

text \<open>\<^verbatim>\<open>onAfgFinalized\<close>.\<close>

definition onAfgFinalized :: "int \<Rightarrow> string \<Rightarrow> Node \<Rightarrow> (error \<times> Node) + Node" where
  "onAfgFinalized finalizedNumber finalizedHash n =
     (let to = finalizedNumber
      in and_then
           (on_cache n
              (and_then
                 (markFinalized (address n) finalizedNumber finalizedHash (consensusCache n))
                 (\<lambda>c. drop_value
                        (backfill (address n) to (Some (mutate_finalized (address n) to)) c))))
           (\<lambda>n1. Inr (emit EvConsensusInfo n1)))"

text \<open>\<^verbatim>\<open>truncateBlockCache\<close>: the reversed key list is walked with its indices.\<close>

definition truncate_keys :: "nat \<Rightarrow> cache \<Rightarrow> cache" where
  "truncate_keys m c =
     (let list = rev (keys c)
      in fold (\<lambda>(k, i) c'. if i > m + 1 then delete_row k c' else c')
           (zip list [0..<length list]) c)"

definition truncateBlockCache :: "deps \<Rightarrow> Node \<Rightarrow> Node" where
  "truncateBlockCache d n =
     n\<lparr>consensusCache := truncate_keys (MAX_BLOCKS_IN_NODE_CACHE d) (consensusCache n)\<rparr>"

text \<open>
  \<^verbatim>\<open>onMessage\<close> up to the call of \<^verbatim>\<open>truncateBlockCache\<close>, and \<^verbatim>\<open>onMessage\<close>. One clock
  reading \<open>now\<close> stands for the calls of \<^verbatim>\<open>timestamp()\<close> made while one message is handled.
\<close>

definition dispatch :: "deps \<Rightarrow> int \<Rightarrow> Message \<Rightarrow> Node \<Rightarrow> (error \<times> Node) + Node" where
  "dispatch d now message n =
     and_then
       (case getBestBlock d message of
          None \<Rightarrow> Inr (n\<lparr>lastMessage := now\<rparr>)
        | Some update \<Rightarrow> updateBestBlock now update (n\<lparr>lastMessage := now\<rparr>))
       (\<lambda>n1. case message of
               MsgSystemInterval si \<Rightarrow> Inr (onSystemInterval d now si n1)
             | MsgNotifyFinalized best' height \<Rightarrow> onNotifyFinalized best' height n1
             | MsgAfgFinalized finalizedNumber finalizedHash \<Rightarrow>
                 onAfgFinalized finalizedNumber finalizedHash n1
             | MsgAfgReceivedPrecommit targetNumber targetHash voter \<Rightarrow>
                 onAfgReceivedPrecommit targetNumber voter n1
             | MsgAfgReceivedPrevote targetNumber targetHash voter \<Rightarrow>
                 onAfgReceivedPrevote targetNumber voter n1
             | MsgAfgAuthoritySet authoritySetId' hash' number' authorities' \<Rightarrow>
                 onAfgAuthoritySet d authoritySetId' hash' number' authorities' n1
             | MsgOther \<Rightarrow> Inr n1)"

definition onMessage :: "deps \<Rightarrow> int \<Rightarrow> Message \<Rightarrow> Node \<Rightarrow> (error \<times> Node) + Node" where
  "onMessage d now message n =
     and_then (dispatch d now message n) (\<lambda>n1. Inr (truncateBlockCache d n1))"

text \<open>
  What can happen to a session: a message arrives on the socket, the socket closes or
  errors or answers a ping, the registry runs the timeout check, the coalescing timer
  fires. Socket notifications reach the session only while its listeners are attached.
  A throw leaves the handler; the session keeps the state it had reached. The messages
  buffered during the handshake, which the constructor replays through \<^verbatim>\<open>onMessage\<close>, are
  the first \<open>Receive\<close> steps of a session.
\<close>

datatype Step =
    Receive int Message
  | SocketClose
  | SocketError
  | Pong int
  | TimeoutCheck int bool
  | BlockTimer

definition state_of :: "(error \<times> Node) + Node \<Rightarrow> Node" where
  "state_of r = (case r of Inl (e, n) \<Rightarrow> n | Inr n \<Rightarrow> n)"

fun step :: "deps \<Rightarrow> Node \<Rightarrow> Step \<Rightarrow> Node" where
  "step d n (Receive now message) =
     (if listeners (socket n) then state_of (onMessage d now message n) else n)"
| "step d n SocketClose = (if listeners (socket n) then disconnect n else n)"
| "step d n SocketError = (if listeners (socket n) then disconnect n else n)"
| "step d n (Pong now) =
     (if listeners (socket n) then n\<lparr>latency := now - pingStart n, pingStart := 0\<rparr> else n)"
| "step d n (TimeoutCheck now ping_throws) = timeoutCheck now ping_throws n"
| "step d n BlockTimer =
     (case timers n of [] \<Rightarrow> n | t # ts \<Rightarrow> block_timer_callback (n\<lparr>timers := ts\<rparr>))"

definition steps :: "deps \<Rightarrow> Node \<Rightarrow> Step list \<Rightarrow> Node" where
  "steps d n ss = foldl (step d) n ss"

section \<open>Observations used in the statements\<close>

text \<open>
  The order in which \<^verbatim>\<open>Object.keys\<close> lists the keys of the cache: whenever an array index
  comes after another key, that key is a smaller array index.
\<close>

definition key_order :: "int list \<Rightarrow> bool" where
  "key_order ks = sorted_wrt (\<lambda>a b. if is_index b then is_index a \<and> a < b else True) ks"

definition wf_cache :: "cache \<Rightarrow> bool" where
  "wf_cache c = (distinct (keys c) \<and> key_order (keys c))"

text \<open>The truthiness of \<^verbatim>\<open>cache[h] && cache[h][v] && cache[h][v].P\<close>.\<close>

definition flag_at :: "(ConsensusInfo \<Rightarrow> bool) \<Rightarrow> cache \<Rightarrow> int \<Rightarrow> string \<Rightarrow> bool" where
  "flag_at P c h v =
     (case lookup c h of
        None \<Rightarrow> False
      | Some r \<Rightarrow> (case r v of None \<Rightarrow> False | Some info \<Rightarrow> P info))"

text \<open>The events emitted between two states of a session.\<close>

definition emitted :: "Node \<Rightarrow> Node \<Rightarrow> Event list" where
  "emitted n n' = drop (length (events n)) (events n')"

text \<open>A sequence of best-block updates, each with the clock reading at which it is handled.\<close>

fun updateBestBlocks :: "(int \<times> BestBlock) list \<Rightarrow> Node \<Rightarrow> (error \<times> Node) + Node" where
  "updateBestBlocks [] n = Inr n"
| "updateBestBlocks ((now, update) # us) n =
     and_then (updateBestBlock now update n) (updateBestBlocks us)"

text \<open>
  The condition of the specification for applying a best-block update:
  \<^verbatim>\<open>hash != best.hash AND height >= best.height\<close>.
\<close>

definition spec_applies :: "BestBlock \<Rightarrow> Node \<Rightarrow> bool" where
  "spec_applies update n = (bb_best update \<noteq> hash (best n) \<and> bb_height update \<ge> number (best n))"

text \<open>A burst: every update of the sequence that is applied has a block time of at most 100 ms.\<close>

fun sub100_burst :: "(int \<times> BestBlock) list \<Rightarrow> Node \<Rightarrow> bool" where
  "sub100_burst [] n = True"
| "sub100_burst ((now, update) # us) n =
     ((if spec_applies update n then getBlockTime (bb_ts update) n \<le> 100 else True)
      \<and> sub100_burst us (state_of (updateBestBlock now update n)))"

text \<open>
  A configuration for the examples: a cache bound of 50, no message carrying a best block,
  JSON on the two authority lists the examples use, and a \<^verbatim>\<open>MeanList\<close> that reports a
  change when the value differs from the last one pushed.
\<close>

definition quoted :: "string \<Rightarrow> string" where
  "quoted s = CHR 0x22 # s @ [CHR 0x22]"

fun join_commas :: "string list \<Rightarrow> string" where
  "join_commas [] = []"
| "join_commas [x] = x"
| "join_commas (x # y # ys) = x @ '','' @ join_commas (y # ys)"

definition sample_deps :: deps where
  "sample_deps =
     \<lparr>MAX_BLOCKS_IN_CHAIN_CACHE = 50,
      getBestBlock = (\<lambda>m. None),
      JSON_parse = (\<lambda>s. if s = ''[]'' then Some []
                         else if s = ''['' @ quoted ''5Grw'' @ '']'' then Some [''5Grw'']
                         else None),
      JSON_stringify = (\<lambda>xs. ''['' @ join_commas (map quoted xs) @ '']''),
      MeanList_push = (\<lambda>xs x. xs = [] \<or> last xs \<noteq> x)\<rparr>"

section \<open>The cache as an ordered object\<close>

lemma in_keysI: "(k, x) \<in> set c \<Longrightarrow> k \<in> fst ` set c"
  by force

lemma map_of_create_row:
  "map_of c h = None \<Longrightarrow> map_of (create_row h r c) k = (if k = h then Some r else map_of c k)"
  by (induction c) (auto split: if_splits)

lemma map_of_set_row:
  "map_of (set_row h r c) k = (if k = h \<and> map_of c h \<noteq> None then Some r else map_of c k)"
  by (induction c) auto

lemma keys_set_row: "map fst (set_row h r c) = map fst c"
  by (induction c) auto

lemma keys_create_row: "set (map fst (create_row h r c)) = insert h (set (map fst c))"
proof (induction c)
  case Nil
  then show ?case by simp
next
  case (Cons p c)
  obtain k x where p: "p = (k, x)" by (cases p)
  show ?case
  proof (cases "is_index h \<and> (\<not> is_index k \<or> h < k)")
    case True
    then show ?thesis unfolding p by simp
  next
    case False
    then show ?thesis using Cons unfolding p by (simp add: insert_commute)
  qed
qed

lemma distinct_create_row:
  "h \<notin> set (map fst c) \<Longrightarrow> distinct (map fst c) \<Longrightarrow> distinct (map fst (create_row h r c))"
proof (induction c)
  case Nil
  then show ?case by simp
next
  case (Cons p c)
  obtain k x where p: "p = (k, x)" by (cases p)
  have "k \<notin> set (map fst (create_row h r c))"
    using Cons.prems unfolding p keys_create_row by auto
  then show ?case using Cons unfolding p by auto
qed

lemma key_order_create_row:
  "h \<notin> set (map fst c) \<Longrightarrow> key_order (map fst c) \<Longrightarrow> key_order (map fst (create_row h r c))"
  unfolding key_order_def
proof (induction c)
  case Nil
  then show ?case by simp
next
  case (Cons p c)
  obtain k x where p: "p = (k, x)" by (cases p)
  have ks: "set (map fst (create_row h r c)) = insert h (set (map fst c))"
    by (rule keys_create_row)
  show ?case
  proof (cases "is_index h \<and> (\<not> is_index k \<or> h < k)")
    case True
    then show ?thesis using Cons.prems unfolding p by (auto)
  next
    case False
    have "sorted_wrt (\<lambda>a b. if is_index b then is_index a \<and> a < b else True) (map fst (create_row h r c))"
      using Cons unfolding p by simp
    moreover have "\<forall>b \<in> set (map fst (create_row h r c)). is_index b \<longrightarrow> is_index k \<and> k < b"
      unfolding ks using Cons.prems False unfolding p by auto
    ultimately show ?thesis using False unfolding p by simp
  qed
qed

lemma fold_delete_filter:
  "fold (\<lambda>(k, i) c'. if Q i then delete_row k c' else c') kis c =
     filter (\<lambda>p. \<not> (\<exists>i. (fst p, i) \<in> set kis \<and> Q i)) c"
proof (induction kis arbitrary: c)
  case Nil
  then show ?case by simp
next
  case (Cons ki kis)
  obtain k i where ki: "ki = (k, i)" by (cases ki)
  show ?case unfolding ki
    by (auto simp: Cons delete_row_def intro!: filter_cong)
qed

lemma deleted_keys:
  assumes "n = length ks"
  shows "(\<exists>i. (k, i) \<in> set (zip (rev ks) [0..<n]) \<and> i > m + 1) \<longleftrightarrow> k \<in> set (take (n - (m + 2)) ks)"
proof
  assume "\<exists>i. (k, i) \<in> set (zip (rev ks) [0..<n]) \<and> i > m + 1"
  then obtain i where i: "(k, i) \<in> set (zip (rev ks) [0..<n])" "i > m + 1" by blast
  from i(1) obtain j where j: "j < n" "rev ks ! j = k" "[0..<n] ! j = i"
    using assms by (auto simp: set_zip)
  then have ji: "j = i" by simp
  have "k = ks ! (n - Suc i)" using j ji assms by (simp add: rev_nth)
  moreover have "n - Suc i < n - (m + 2)" using i(2) j(1) ji by arith
  ultimately show "k \<in> set (take (n - (m + 2)) ks)"
    using assms by (auto simp: in_set_conv_nth) 
next
  assume "k \<in> set (take (n - (m + 2)) ks)"
  then obtain j where j: "j < n - (m + 2)" "ks ! j = k"
    using assms by (auto simp: in_set_conv_nth)
  let ?i = "n - Suc j"
  have "?i < n" "?i > m + 1" using j(1) by arith+
  moreover have "rev ks ! ?i = k" using j assms by (simp add: rev_nth)
  ultimately have "(k, ?i) \<in> set (zip (rev ks) [0..<n])"
    using assms by (auto simp: set_zip intro!: exI[of _ ?i])
  then show "\<exists>i. (k, i) \<in> set (zip (rev ks) [0..<n]) \<and> i > m + 1"
    using \<open>?i > m + 1\<close> by blast
qed

lemma filter_not_in_take:
  "distinct (map fst c) \<Longrightarrow> filter (\<lambda>p. fst p \<notin> set (take j (map fst c))) c = drop j c"
proof (induction c arbitrary: j)
  case Nil
  then show ?case by simp
next
  case (Cons p c)
  show ?case
  proof (cases j)
    case 0
    then show ?thesis by simp
  next
    case (Suc j')
    have "filter (\<lambda>q. fst q \<notin> set (take j' (map fst c))) c = drop j' c"
      using Cons by simp
    moreover have "filter (\<lambda>q. fst q \<noteq> fst p \<and> fst q \<notin> set (take j' (map fst c))) c
        = filter (\<lambda>q. fst q \<notin> set (take j' (map fst c))) c"
      using Cons.prems by (intro filter_cong) (auto dest: in_keysI)
    ultimately show ?thesis using Suc by simp
  qed
qed

lemma truncate_keys_drop:
  assumes "distinct (keys c)"
  shows "truncate_keys m c = drop (length c - (m + 2)) c"
proof -
  have "truncate_keys m c =
      filter (\<lambda>p. \<not> (\<exists>i. (fst p, i) \<in> set (zip (rev (keys c)) [0..<length (rev (keys c))]) \<and> i > m + 1)) c"
    unfolding truncate_keys_def Let_def by (rule fold_delete_filter)
  also have "\<dots> = filter (\<lambda>p. fst p \<notin> set (take (length c - (m + 2)) (map fst c))) c"
    using deleted_keys[of "length c" "keys c" _ m] by (simp add: keys_def)
  also have "\<dots> = drop (length c - (m + 2)) c"
    using assms by (simp add: filter_not_in_take keys_def)
  finally show ?thesis .
qed


section \<open>backfill\<close>

lemma backfill_loop_first_iteration:
  assumes "lookup c (from - 1) \<noteq> None"
  shows "backfill_loop voter f fb True from c = Inr (from - 1, c)"
  using assms by (subst backfill_loop.simps) simp

lemma backfill_value:
  "backfill voter from f c =
     Inr (if truthy voter \<and> 2 \<le> length (keys c) \<and> lookup c (from - 1) \<noteq> None
          then from - 1 else from, c)"
  by (simp add: backfill_def backfill_loop_first_iteration)


text \<open>
  C1. For every call \<^verbatim>\<open>backfill(voter, from, f)\<close>: if the voter is absent (falsy), or the
  cache holds at most one height, or there is no cache entry at height \<open>from - 1\<close> (for a
  safe integer \<open>from\<close>, where the subtraction of the code is exact), then the call returns
  \<open>from\<close> unchanged and the consensus cache is not modified.
\<close>

theorem backfill_returns_from_unchanged:
  assumes "\<not> truthy voter \<or> length (keys c) \<le> 1
           \<or> (safe_integer from \<and> lookup c (from - 1) = None)"
  shows "backfill voter from f c = Inr (from, c)"
  using assms by (auto simp: backfill_def)

theorem backfill_returns_from_unchanged_witness:
  "safe_integer 105
   \<and> lookup [(100, [''V'' \<mapsto> empty_info]), (105, [''V'' \<mapsto> empty_info\<lparr>Prevote := True\<rparr>])] (105 - 1) = None
   \<and> backfill (Just ''V'') 105 (Some (mutate_prevote ''V'' 105))
       [(100, [''V'' \<mapsto> empty_info]), (105, [''V'' \<mapsto> empty_info\<lparr>Prevote := True\<rparr>])]
     = Inr (105, [(100, [''V'' \<mapsto> empty_info]), (105, [''V'' \<mapsto> empty_info\<lparr>Prevote := True\<rparr>])])
   \<and> backfill Null 105 (Some (mutate_prevote ''V'' 105))
       [(100, [''V'' \<mapsto> empty_info]), (104, [''V'' \<mapsto> empty_info])]
     = Inr (105, [(100, [''V'' \<mapsto> empty_info]), (104, [''V'' \<mapsto> empty_info])])
   \<and> backfill (Just ''V'') 105 (Some (mutate_prevote ''V'' 105)) [(104, [''V'' \<mapsto> empty_info])]
     = Inr (105, [(104, [''V'' \<mapsto> empty_info])])"
proof -
  let ?c = "[(100, [''V'' \<mapsto> empty_info]), (105, [''V'' \<mapsto> empty_info\<lparr>Prevote := True\<rparr>])] :: cache"
  let ?c2 = "[(100, [''V'' \<mapsto> empty_info]), (104, [''V'' \<mapsto> empty_info])] :: cache"
  let ?c3 = "[(104, [''V'' \<mapsto> empty_info])] :: cache"
  let ?f = "Some (mutate_prevote ''V'' 105)"
  have s: "safe_integer 105" by (simp add: safe_integer_def)
  have h: "lookup ?c (105 - 1) = None" by (simp add: lookup_def)
  have gap: "\<not> truthy (Just ''V'') \<or> length (keys ?c) \<le> 1
      \<or> (safe_integer 105 \<and> lookup ?c (105 - 1) = None)"
    using s h by blast
  have absent: "\<not> truthy Null \<or> length (keys ?c2) \<le> 1
      \<or> (safe_integer 105 \<and> lookup ?c2 (105 - 1) = None)"
    by simp
  have single: "\<not> truthy (Just ''V'') \<or> length (keys ?c3) \<le> 1
      \<or> (safe_integer 105 \<and> lookup ?c3 (105 - 1) = None)"
    by (simp add: keys_def)
  from backfill_returns_from_unchanged [OF gap, of ?f]
    backfill_returns_from_unchanged [OF absent, of ?f]
    backfill_returns_from_unchanged [OF single, of ?f] s h
  show ?thesis by simp
qed

text \<open>
  C2. For every call \<^verbatim>\<open>backfill(voter, from, f)\<close> that reaches the walk (voter present, at
  least two heights cached, an entry at \<open>from - 1\<close>): the call returns the first height \<open>i\<close>
  below \<open>from\<close>, walking downward, that already has a cache entry, and the cache, so also
  the entry at \<open>i\<close>, is not modified.
\<close>

theorem backfill_stops_at_first_existing:
  assumes "truthy voter" and "2 \<le> length (keys c)" and "lookup c (from - 1) \<noteq> None"
  shows "\<exists>i. backfill voter from f c = Inr (i, c) \<and> i < from \<and> lookup c i \<noteq> None
           \<and> (\<forall>j. i < j \<and> j < from \<longrightarrow> lookup c j = None)"
proof -
  have "backfill voter from f c = Inr (from - 1, c)"
    using assms by (simp add: backfill_def backfill_loop_first_iteration)
  then show ?thesis using assms(3) by (intro exI[of _ "from - 1"]) auto
qed

theorem backfill_stops_at_first_existing_witness:
  "truthy (Just ''V'')
   \<and> 2 \<le> length (keys [(100, [''V'' \<mapsto> empty_info]), (103, [''V'' \<mapsto> empty_info]),
                         (104, [''V'' \<mapsto> empty_info\<lparr>Prevote := True\<rparr>])])
   \<and> lookup [(100, [''V'' \<mapsto> empty_info]), (103, [''V'' \<mapsto> empty_info]),
              (104, [''V'' \<mapsto> empty_info\<lparr>Prevote := True\<rparr>])] (104 - 1) \<noteq> None
   \<and> (\<exists>i. backfill (Just ''V'') 104 (Some (mutate_prevote ''V'' 104))
             [(100, [''V'' \<mapsto> empty_info]), (103, [''V'' \<mapsto> empty_info]),
              (104, [''V'' \<mapsto> empty_info\<lparr>Prevote := True\<rparr>])]
           = Inr (i, [(100, [''V'' \<mapsto> empty_info]), (103, [''V'' \<mapsto> empty_info]),
                      (104, [''V'' \<mapsto> empty_info\<lparr>Prevote := True\<rparr>])])
          \<and> i < 104)"
proof -
  let ?c = "[(100, [''V'' \<mapsto> empty_info]), (103, [''V'' \<mapsto> empty_info]),
             (104, [''V'' \<mapsto> empty_info\<lparr>Prevote := True\<rparr>])] :: cache"
  have h1: "truthy (Just ''V'')" by simp
  have h2: "2 \<le> length (keys ?c)" by (simp add: keys_def)
  have h3: "lookup ?c (104 - 1) \<noteq> None" by (simp add: lookup_def)
  from backfill_stops_at_first_existing [OF h1 h2 h3, of "Some (mutate_prevote ''V'' 104)"]
  show ?thesis using h1 h2 h3 by blast
qed

text \<open>
  C10. Every call \<^verbatim>\<open>backfill(voter, from, f)\<close> returns, leaves the consensus cache
  unchanged and does not depend on the continuation function \<open>f\<close>, which is never invoked.
  For a safe integer \<open>from\<close>, where the subtraction of the code is exact, the call returns
  \<open>from - 1\<close> when the voter is present, the cache holds at least two heights and a row
  exists at \<open>from - 1\<close>, and \<open>from\<close> in every other case.
\<close>

theorem backfill_never_fills:
  "(\<exists>i. backfill voter from f c = Inr (i, c))
   \<and> backfill voter from f c = backfill voter from (Some (\<lambda>i c'. Inl (TypeError, c'))) c
   \<and> backfill voter from f c = backfill voter from None c
   \<and> (safe_integer from \<longrightarrow>
        backfill voter from f c =
          Inr (if truthy voter \<and> 2 \<le> length (keys c) \<and> lookup c (from - 1) \<noteq> None
               then from - 1 else from, c))"
proof -
  let ?r = "Inr (if truthy voter \<and> 2 \<le> length (keys c) \<and> lookup c (from - 1) \<noteq> None
          then from - 1 else from, c) :: (error \<times> cache) + (int \<times> cache)"
  have with_f: "backfill voter from f c = ?r"
    by (rule backfill_value)
  have throwing: "backfill voter from (Some (\<lambda>i c'. Inl (TypeError, c'))) c = ?r"
    by (rule backfill_value)
  have without: "backfill voter from None c = ?r"
    by (rule backfill_value)
  have returns: "\<exists>i. backfill voter from f c = Inr (i, c)"
    using with_f by blast
  show ?thesis using with_f throwing without returns by simp
qed

theorem backfill_never_fills_witness:
  "safe_integer 104
   \<and> backfill (Just ''V'') 104 (Some (mutate_precommit ''V'' 104))
       [(100, [''V'' \<mapsto> empty_info]), (103, Map.empty), (104, [''V'' \<mapsto> empty_info])]
     = Inr (103, [(100, [''V'' \<mapsto> empty_info]), (103, Map.empty), (104, [''V'' \<mapsto> empty_info])])"
proof -
  have s: "safe_integer 104" by (simp add: safe_integer_def)
  let ?c = "[(100, [''V'' \<mapsto> empty_info]), (103, Map.empty), (104, [''V'' \<mapsto> empty_info])] :: cache"
  let ?f = "Some (mutate_precommit ''V'' 104)"
  from backfill_never_fills [of "Just ''V''" 104 ?f ?c]
  have "safe_integer 104 \<longrightarrow>
        backfill (Just ''V'') 104 ?f ?c =
          Inr (if truthy (Just ''V'') \<and> 2 \<le> length (keys ?c) \<and> lookup ?c (104 - 1) \<noteq> None
               then 104 - 1 else 104, ?c)"
    by blast
  then have "backfill (Just ''V'') 104 ?f ?c =
          Inr (if truthy (Just ''V'') \<and> 2 \<le> length (keys ?c) \<and> lookup ?c (104 - 1) \<noteq> None
               then 104 - 1 else 104, ?c)"
    using s by blast
  then have "backfill (Just ''V'') 104 ?f ?c = Inr (103, ?c)"
    by (simp add: keys_def lookup_def)
  then show ?thesis using s by blast
qed

section \<open>Best block\<close>

lemma updateBestBlock_value:
  "updateBestBlock now update n =
     Inr (if hash (best n) \<noteq> bb_best update \<and> number (best n) \<le> bb_height update
          then (let blockTime' = getBlockTime (bb_ts update) n;
                    n1 = n\<lparr>best := \<lparr>number = bb_height update, hash = bb_best update\<rparr>,
                           blockTimestamp := now,
                           lastBlockAt := Some (bb_ts update),
                           blockTimes := blockTimes n @ [blockTime'],
                           blockTime := blockTime'\<rparr>
                in if blockTime' > 100 then emit EvBlock n1
                   else if \<not> throttle n1
                        then n1\<lparr>throttle := True, timers := timers n1 @ [now + 1000]\<rparr>
                        else n1)
          else n)"
  by (simp add: updateBestBlock_def backfill_value Let_def)

lemma updateBestBlock_best_number:
  "updateBestBlock now update n = Inr n' \<Longrightarrow> number (best n) \<le> number (best n')"
  by (auto simp: updateBestBlock_value Let_def emit_def split: if_splits)

lemma updateBestBlocks_best_number:
  "\<exists>n'. updateBestBlocks us n = Inr n' \<and> number (best n) \<le> number (best n')"
proof (induction us arbitrary: n)
  case Nil
  then show ?case by simp
next
  case (Cons p us)
  obtain now u where p: "p = (now, u)" by (cases p)
  obtain n1 where n1: "updateBestBlock now u n = Inr n1"
    by (simp add: updateBestBlock_value)
  from Cons[of n1] obtain n' where "updateBestBlocks us n1 = Inr n'" "number (best n1) \<le> number (best n')"
    by blast
  then show ?case using n1 updateBestBlock_best_number[OF n1]
    by (auto simp: p and_then_def)
qed

text \<open>
  C6. A best-block update is applied if and only if its hash differs from \<open>best.hash\<close> and
  its height is at least \<open>best.height\<close>; an update that is not applied leaves the session
  as it was. The stored best height never decreases, over one update and over every
  sequence of updates, and an update at the same height changes only \<open>best.hash\<close>.
\<close>

theorem best_block_update_monotonic:
  "\<exists>n'. updateBestBlock now update n = Inr n'
      \<and> (n' \<noteq> n) = spec_applies update n
      \<and> (if spec_applies update n
         then best n' = \<lparr>number = bb_height update, hash = bb_best update\<rparr>
         else n' = n)
      \<and> number (best n) \<le> number (best n')
      \<and> (bb_height update = number (best n) \<longrightarrow> best n' = (best n)\<lparr>hash := hash (best n')\<rparr>)
      \<and> (\<exists>n''. updateBestBlocks us n = Inr n'' \<and> number (best n) \<le> number (best n''))"
proof -
  obtain n' where n': "updateBestBlock now update n = Inr n'"
    by (simp add: updateBestBlock_value)
  have a: "spec_applies update n \<Longrightarrow> best n' = \<lparr>number = bb_height update, hash = bb_best update\<rparr>"
    using n' by (auto simp: updateBestBlock_value spec_applies_def Let_def emit_def split: if_splits)
  have b: "\<not> spec_applies update n \<Longrightarrow> n' = n"
    using n' by (auto simp: updateBestBlock_value spec_applies_def split: if_splits)
  have c: "spec_applies update n \<Longrightarrow> n' \<noteq> n"
    using a by (auto simp: spec_applies_def)
  have d: "bb_height update = number (best n) \<Longrightarrow> best n' = (best n)\<lparr>hash := hash (best n')\<rparr>"
    using a b by (cases "spec_applies update n") auto
  show ?thesis
    using n' a b c d updateBestBlock_best_number[OF n'] updateBestBlocks_best_number[of us n]
    by (intro exI[of _ n']) auto
qed

theorem best_block_update_monotonic_witness:
  "spec_applies \<lparr>bb_height = 0, bb_ts = 1000, bb_best = ''0xabc''\<rparr> (new_Node 0 Null)
   \<and> bb_height \<lparr>bb_height = 0, bb_ts = 1000, bb_best = ''0xabc''\<rparr> = number (best (new_Node 0 Null))
   \<and> (\<exists>n'. updateBestBlock 7 \<lparr>bb_height = 0, bb_ts = 1000, bb_best = ''0xabc''\<rparr> (new_Node 0 Null) = Inr n'
          \<and> best n' = \<lparr>number = 0, hash = ''0xabc''\<rparr>
          \<and> best n' = (best (new_Node 0 Null))\<lparr>hash := hash (best n')\<rparr>)"
proof -
  let ?u = "\<lparr>bb_height = 0, bb_ts = 1000, bb_best = ''0xabc''\<rparr>"
  have h1: "spec_applies ?u (new_Node 0 Null)"
    by (simp add: spec_applies_def new_Node_def Block_ZERO_def)
  have h2: "bb_height ?u = number (best (new_Node 0 Null))"
    by (simp add: new_Node_def Block_ZERO_def)
  from best_block_update_monotonic [of 7 ?u "new_Node 0 Null" "[]"] h1 h2
  show ?thesis by auto
qed



lemma cache_handler_frame:
  "(state_of (and_then (on_cache n r) (\<lambda>n1. Inr (emit EvConsensusInfo n1))))
      \<lparr>consensusCache := consensusCache n, events := events n\<rparr> = n"
  by (cases r) (auto simp: on_cache_def and_then_def state_of_def emit_def split: prod.splits)

lemma onNotifyFinalized_frame:
  "(state_of (onNotifyFinalized b h n))\<lparr>consensusCache := consensusCache n, events := events n\<rparr> = n"
  unfolding onNotifyFinalized_def by (rule cache_handler_frame)

lemma onAfgFinalized_frame:
  "(state_of (onAfgFinalized h b n))\<lparr>consensusCache := consensusCache n, events := events n\<rparr> = n"
  unfolding onAfgFinalized_def Let_def by (rule cache_handler_frame)

lemma onAfgReceivedPrecommit_frame:
  "(state_of (onAfgReceivedPrecommit h v n))\<lparr>consensusCache := consensusCache n, events := events n\<rparr> = n"
  unfolding onAfgReceivedPrecommit_def Let_def by (rule cache_handler_frame)

lemma onAfgReceivedPrevote_frame:
  "(state_of (onAfgReceivedPrevote h v n))\<lparr>consensusCache := consensusCache n, events := events n\<rparr> = n"
  unfolding onAfgReceivedPrevote_def Let_def by (rule cache_handler_frame)

lemma onAfgAuthoritySet_frame:
  "(state_of (onAfgAuthoritySet d i h k s n))\<lparr>events := events n, authorities := authorities n\<rparr> = n"
  by (simp add: onAfgAuthoritySet_def state_of_def emit_def Let_def split: option.splits)


lemma handler_frames:
  assumes F: "\<And>n c ev a. F (n\<lparr>consensusCache := c, events := ev, authorities := a\<rparr>) = F n"
  shows "F (state_of (onNotifyFinalized b h n)) = F n"
    and "F (state_of (onAfgFinalized h b n)) = F n"
    and "F (state_of (onAfgReceivedPrecommit h v n)) = F n"
    and "F (state_of (onAfgReceivedPrevote h v n)) = F n"
    and "F (state_of (onAfgAuthoritySet d i hh k s n)) = F n"
    and "F (truncateBlockCache d n) = F n"
proof -
  have G: "F (n'\<lparr>consensusCache := c, events := ev\<rparr>) = F n'" for n' c ev
    using F[where n=n' and c=c and ev=ev and a="authorities n'"] by simp
  have H: "F (n'\<lparr>events := ev, authorities := a\<rparr>) = F n'" for n' a ev
    using F[where n=n' and c="consensusCache n'" and ev=ev and a=a] by simp
  have K: "F (n'\<lparr>consensusCache := c\<rparr>) = F n'" for n' c
    using F[where n=n' and c=c and ev="events n'" and a="authorities n'"] by simp
  show "F (state_of (onNotifyFinalized b h n)) = F n"
    using G[where n'="state_of (onNotifyFinalized b h n)" and c="consensusCache n" and ev="events n"]
    by (simp add: onNotifyFinalized_frame)
  show "F (state_of (onAfgFinalized h b n)) = F n"
    using G[where n'="state_of (onAfgFinalized h b n)" and c="consensusCache n" and ev="events n"]
    by (simp add: onAfgFinalized_frame)
  show "F (state_of (onAfgReceivedPrecommit h v n)) = F n"
    using G[where n'="state_of (onAfgReceivedPrecommit h v n)" and c="consensusCache n" and ev="events n"]
    by (simp add: onAfgReceivedPrecommit_frame)
  show "F (state_of (onAfgReceivedPrevote h v n)) = F n"
    using G[where n'="state_of (onAfgReceivedPrevote h v n)" and c="consensusCache n" and ev="events n"]
    by (simp add: onAfgReceivedPrevote_frame)
  show "F (state_of (onAfgAuthoritySet d i hh k s n)) = F n"
    using H[where n'="state_of (onAfgAuthoritySet d i hh k s n)" and a="authorities n" and ev="events n"]
    by (simp add: onAfgAuthoritySet_frame)
  show "F (truncateBlockCache d n) = F n"
    using K by (simp add: truncateBlockCache_def)
qed

lemma dispatch_frame:
  assumes F: "\<And>n c ev a. F (n\<lparr>consensusCache := c, events := ev, authorities := a\<rparr>) = F n"
  shows "F (state_of (dispatch d now m n)) =
     (let n1 = (case getBestBlock d m of
                  None \<Rightarrow> n\<lparr>lastMessage := now\<rparr>
                | Some u \<Rightarrow> state_of (updateBestBlock now u (n\<lparr>lastMessage := now\<rparr>)))
      in case m of MsgSystemInterval si \<Rightarrow> F (onSystemInterval d now si n1) | _ \<Rightarrow> F n1)"
proof -
  have "\<exists>n1. (case getBestBlock d m of
          None \<Rightarrow> Inr (n\<lparr>lastMessage := now\<rparr>)
        | Some update \<Rightarrow> updateBestBlock now update (n\<lparr>lastMessage := now\<rparr>)) = Inr n1"
    by (simp add: updateBestBlock_value split: option.splits)
  then obtain n1 where n1: "(case getBestBlock d m of
          None \<Rightarrow> Inr (n\<lparr>lastMessage := now\<rparr>)
        | Some update \<Rightarrow> updateBestBlock now update (n\<lparr>lastMessage := now\<rparr>)) = Inr n1"
    by blast
  then have n1': "(case getBestBlock d m of
                  None \<Rightarrow> n\<lparr>lastMessage := now\<rparr>
                | Some u \<Rightarrow> state_of (updateBestBlock now u (n\<lparr>lastMessage := now\<rparr>))) = n1"
    by (auto simp: state_of_def split: option.splits)
  show ?thesis
    unfolding n1' Let_def dispatch_def n1
    by (cases m) (simp_all add: and_then_def handler_frames[of F, OF F], simp_all add: state_of_def)
qed

lemma onMessage_frame:
  assumes F: "\<And>n c ev a. F (n\<lparr>consensusCache := c, events := ev, authorities := a\<rparr>) = F n"
  shows "F (state_of (onMessage d now m n)) = F (state_of (dispatch d now m n))"
  by (cases "dispatch d now m n")
     (auto simp: onMessage_def and_then_def state_of_def handler_frames(6)[of F, OF F])

section \<open>Finalized block\<close>

lemma best_phase_frame:
  assumes "n1 = (case getBestBlock d m of
                  None \<Rightarrow> n\<lparr>lastMessage := now\<rparr>
                | Some u \<Rightarrow> state_of (updateBestBlock now u (n\<lparr>lastMessage := now\<rparr>)))"
  shows "finalized n1 = finalized n" "consensusCache n1 = consensusCache n"
    "socket n1 = socket n" "authorities n1 = authorities n"
    "authoritySetId n1 = authoritySetId n" "address n1 = address n"
    "lastMessage n1 = now"
proof -
  show "finalized n1 = finalized n" "consensusCache n1 = consensusCache n"
    "socket n1 = socket n" "authorities n1 = authorities n"
    "authoritySetId n1 = authoritySetId n" "address n1 = address n"
    "lastMessage n1 = now"
    unfolding assms
    by (auto simp: updateBestBlock_value state_of_def Let_def emit_def split: option.splits)
qed

lemma onSystemInterval_finalized:
  "finalized (onSystemInterval d now message n) =
     (case finalized_height message of
        None \<Rightarrow> finalized n
      | Some fin \<Rightarrow>
          (case finalized_hash message of
             None \<Rightarrow> finalized n
           | Some fh \<Rightarrow>
               if number (finalized n) < fin then \<lparr>number = fin, hash = fh\<rparr> else finalized n))"
proof -
  have a: "finalized (si_hardware d now message n') = finalized n'" for n'
    by (simp add: si_hardware_def Let_def emit_def split: option.splits)
  have b: "finalized (si_stats message n') = finalized n'" for n'
    by (simp add: si_stats_def emit_def)
  have c: "finalized (si_network_state message n') = finalized n'" for n'
    by (simp add: si_network_state_def)
  show ?thesis
    unfolding onSystemInterval_def a
    by (simp add: si_finalized_def b c emit_def split: option.splits)
qed

lemma onSystemInterval_finalized_le:
  "number (finalized n) \<le> number (finalized (onSystemInterval d now message n))"
  by (simp add: onSystemInterval_finalized split: option.splits)

lemma onSystemInterval_finalized_cong:
  "finalized n1 = finalized n \<Longrightarrow>
   finalized (onSystemInterval d now message n1) = finalized (onSystemInterval d now message n)"
  by (simp add: onSystemInterval_finalized split: option.splits)

lemma onSystemInterval_events:
  "\<exists>xs ys zs. events (onSystemInterval d now message n) = events n @ xs @ ys @ zs
      \<and> EvFinalized \<notin> set xs \<and> EvFinalized \<notin> set zs
      \<and> EvDisconnect \<notin> set (xs @ ys @ zs) \<and> EvBlock \<notin> set (xs @ ys @ zs)
      \<and> ys = (case finalized_height message of
        None \<Rightarrow> []
      | Some fin \<Rightarrow>
          (case finalized_hash message of
             None \<Rightarrow> []
           | Some fh \<Rightarrow> if number (finalized n) < fin then [EvFinalized] else []))"
proof -
  have a: "\<exists>zs. events (si_hardware d now message n') = events n' @ zs \<and> set zs \<subseteq> {EvHardware}" for n'
    by (simp add: si_hardware_def Let_def emit_def split: option.splits)
  have b: "\<exists>xs. events (si_stats message n') = events n' @ xs \<and> set xs \<subseteq> {EvStats}
      \<and> finalized (si_stats message n') = finalized n'" for n'
    by (simp add: si_stats_def emit_def)
  have c: "events (si_network_state message n') = events n'
      \<and> finalized (si_network_state message n') = finalized n'" for n'
    by (simp add: si_network_state_def)
  have f: "events (si_finalized message n') = events n' @ (case finalized_height message of
        None \<Rightarrow> []
      | Some fin \<Rightarrow>
          (case finalized_hash message of
             None \<Rightarrow> []
           | Some fh \<Rightarrow> if number (finalized n') < fin then [EvFinalized] else []))" for n'
    by (simp add: si_finalized_def emit_def split: option.splits)
  let ?n1 = "si_network_state message n"
  let ?n2 = "si_stats message ?n1"
  let ?n3 = "si_finalized message ?n2"
  obtain xs where xs: "events ?n2 = events ?n1 @ xs" "set xs \<subseteq> {EvStats}"
    and f2: "finalized ?n2 = finalized ?n1"
    using b[of ?n1] by blast
  obtain zs where zs: "events (si_hardware d now message ?n3) = events ?n3 @ zs" "set zs \<subseteq> {EvHardware}"
    using a[of ?n3] by blast
  have fin: "finalized ?n2 = finalized n" using f2 c[of n] by simp
  let ?ys = "(case finalized_height message of
        None \<Rightarrow> []
      | Some fin \<Rightarrow>
          (case finalized_hash message of
             None \<Rightarrow> []
           | Some fh \<Rightarrow> if number (finalized n) < fin then [EvFinalized] else []))"
  have "events (onSystemInterval d now message n) = events n @ xs @ ?ys @ zs"
    unfolding onSystemInterval_def zs(1) f[of ?n2] xs(1) fin using c[of n] by simp
  moreover have "EvFinalized \<notin> set xs" "EvFinalized \<notin> set zs" "EvDisconnect \<notin> set (xs @ ?ys @ zs)"
    "EvBlock \<notin> set (xs @ ?ys @ zs)"
    using xs(2) zs(2) by (auto split: option.splits if_splits)
  ultimately show ?thesis by blast
qed

lemma onSystemInterval_emitted:
  "count_list (emitted n (onSystemInterval d now message n)) EvFinalized =
     (case finalized_height message of
        None \<Rightarrow> 0
      | Some fin \<Rightarrow>
          (case finalized_hash message of
             None \<Rightarrow> 0
           | Some fh \<Rightarrow> if number (finalized n) < fin then 1 else 0))"
proof -
  obtain xs ys zs where e: "events (onSystemInterval d now message n) = events n @ xs @ ys @ zs"
    "EvFinalized \<notin> set xs" "EvFinalized \<notin> set zs"
    "ys = (case finalized_height message of
        None \<Rightarrow> []
      | Some fin \<Rightarrow>
          (case finalized_hash message of
             None \<Rightarrow> []
           | Some fh \<Rightarrow> if number (finalized n) < fin then [EvFinalized] else []))"
    using onSystemInterval_events[of d now message n] by blast
  have "count_list (emitted n (onSystemInterval d now message n)) EvFinalized = count_list ys EvFinalized"
    using e(2,3) by (simp add: emitted_def e(1))
  then show ?thesis unfolding e(4) by (simp split: option.splits)
qed

lemma onMessage_finalized:
  "finalized (state_of (onMessage d now m n)) =
     (case m of MsgSystemInterval si \<Rightarrow> finalized (onSystemInterval d now si n)
      | _ \<Rightarrow> finalized n)"
proof -
  define n1 where "n1 = (case getBestBlock d m of
                  None \<Rightarrow> n\<lparr>lastMessage := now\<rparr>
                | Some u \<Rightarrow> state_of (updateBestBlock now u (n\<lparr>lastMessage := now\<rparr>)))"
  have f: "finalized n1 = finalized n" using best_phase_frame(1)[OF n1_def] .
  have "finalized (state_of (onMessage d now m n)) = finalized (state_of (dispatch d now m n))"
    by (rule onMessage_frame) simp
  also have "\<dots> = (case m of MsgSystemInterval si \<Rightarrow> finalized (onSystemInterval d now si n1)
      | _ \<Rightarrow> finalized n1)"
    unfolding n1_def using dispatch_frame[of finalized d now m n] by (simp add: Let_def)
  also have "\<dots> = (case m of MsgSystemInterval si \<Rightarrow> finalized (onSystemInterval d now si n)
      | _ \<Rightarrow> finalized n)"
    using f by (simp add: onSystemInterval_finalized_cong[OF f] split: Message.splits)
  finally show ?thesis .
qed

lemma step_finalized: "number (finalized n) \<le> number (finalized (step d n s))"
proof (cases s)
  case (Receive now m)
  then show ?thesis
    by (simp add: onMessage_finalized onSystemInterval_finalized_le split: Message.splits)
next
  case (TimeoutCheck now p)
  then show ?thesis
    by (simp add: timeoutCheck_def updateLatency_def disconnect_def emit_def Let_def)
next
  case BlockTimer
  then show ?thesis by (simp add: block_timer_callback_def emit_def split: list.splits)
qed (simp_all add: disconnect_def emit_def)

lemma steps_finalized: "number (finalized n) \<le> number (finalized (steps d n ss))"
proof (induction ss arbitrary: n)
  case Nil
  then show ?case by (simp add: steps_def)
next
  case (Cons s ss)
  have "number (finalized n) \<le> number (finalized (step d n s))" by (rule step_finalized)
  also have "\<dots> \<le> number (finalized (steps d (step d n s) ss))" by (rule Cons)
  finally show ?case by (simp add: steps_def)
qed

text \<open>
  C7. \<^verbatim>\<open>onSystemInterval\<close> replaces the stored finalized block only when the message has a
  finalized height and hash and the height is strictly greater than the current one, and
  it emits the finalized event exactly then. No other message changes the finalized
  block, and the finalized height never decreases over any sequence of steps.
\<close>

theorem finalized_replaced_only_by_greater:
  assumes "n' = onSystemInterval d now message n"
  shows "(case finalized_height message of
            None \<Rightarrow> finalized n' = finalized n \<and> count_list (emitted n n') EvFinalized = 0
          | Some fin \<Rightarrow>
              (case finalized_hash message of
                 None \<Rightarrow> finalized n' = finalized n \<and> count_list (emitted n n') EvFinalized = 0
               | Some fh \<Rightarrow>
                   if number (finalized n) < fin
                   then finalized n' = \<lparr>number = fin, hash = fh\<rparr>
                        \<and> count_list (emitted n n') EvFinalized = 1
                   else finalized n' = finalized n
                        \<and> count_list (emitted n n') EvFinalized = 0))
         \<and> number (finalized n) \<le> number (finalized n')
         \<and> finalized (state_of (onMessage d now m n)) =
             (case m of MsgSystemInterval si \<Rightarrow> finalized (onSystemInterval d now si n)
              | _ \<Rightarrow> finalized n)
         \<and> number (finalized n) \<le> number (finalized (steps d n ss))"
  unfolding assms
  by (simp add: onSystemInterval_finalized onSystemInterval_emitted onMessage_finalized
      steps_finalized split: option.splits)

theorem finalized_replaced_only_by_greater_witness:
  "finalized (onSystemInterval sample_deps 5
       \<lparr>msg_network_state = None, msg_peers = 3, msg_txcount = 0, msg_cpu = None,
        msg_memory = None, bandwidth_download = 0, bandwidth_upload = 0,
        finalized_height = Some 10, finalized_hash = Some ''0xf''\<rparr> (new_Node 0 Null))
     = \<lparr>number = 10, hash = ''0xf''\<rparr>
   \<and> count_list (emitted (new_Node 0 Null) (onSystemInterval sample_deps 5
       \<lparr>msg_network_state = None, msg_peers = 3, msg_txcount = 0, msg_cpu = None,
        msg_memory = None, bandwidth_download = 0, bandwidth_upload = 0,
        finalized_height = Some 10, finalized_hash = Some ''0xf''\<rparr> (new_Node 0 Null))) EvFinalized = 1"
  using finalized_replaced_only_by_greater [OF refl, where message = "\<lparr>msg_network_state = None, msg_peers = 3, msg_txcount = 0, msg_cpu = None,
        msg_memory = None, bandwidth_download = 0, bandwidth_upload = 0,
        finalized_height = Some 10, finalized_hash = Some ''0xf''\<rparr>" and n = "new_Node 0 Null" and d = sample_deps and now = 5 and m = MsgOther and ss = "[]"]
  by (simp add: new_Node_def Block_ZERO_def)

section \<open>Coalescing of block events\<close>

lemma onSystemInterval_frame:
  "throttle (onSystemInterval d now message n) = throttle n"
  "timers (onSystemInterval d now message n) = timers n"
  "socket (onSystemInterval d now message n) = socket n"
  "consensusCache (onSystemInterval d now message n) = consensusCache n"
  "address (onSystemInterval d now message n) = address n"
  "authoritySetId (onSystemInterval d now message n) = authoritySetId n"
  "lastMessage (onSystemInterval d now message n) = lastMessage n"
proof -
  have a: "throttle (si_hardware d now message n') = throttle n'"
    "timers (si_hardware d now message n') = timers n'"
    "socket (si_hardware d now message n') = socket n'"
    "consensusCache (si_hardware d now message n') = consensusCache n'"
    "address (si_hardware d now message n') = address n'"
    "authoritySetId (si_hardware d now message n') = authoritySetId n'"
    "lastMessage (si_hardware d now message n') = lastMessage n'" for n'
    by (simp_all add: si_hardware_def Let_def emit_def split: option.splits)
  have b: "throttle (si_finalized message n') = throttle n'"
    "timers (si_finalized message n') = timers n'"
    "socket (si_finalized message n') = socket n'"
    "consensusCache (si_finalized message n') = consensusCache n'"
    "address (si_finalized message n') = address n'"
    "authoritySetId (si_finalized message n') = authoritySetId n'"
    "lastMessage (si_finalized message n') = lastMessage n'" for n'
    by (simp_all add: si_finalized_def emit_def split: option.splits)
  have c: "throttle (si_stats message n') = throttle n'"
    "timers (si_stats message n') = timers n'"
    "socket (si_stats message n') = socket n'"
    "consensusCache (si_stats message n') = consensusCache n'"
    "address (si_stats message n') = address n'"
    "authoritySetId (si_stats message n') = authoritySetId n'"
    "lastMessage (si_stats message n') = lastMessage n'" for n'
    by (simp_all add: si_stats_def emit_def)
  have e: "throttle (si_network_state message n') = throttle n'"
    "timers (si_network_state message n') = timers n'"
    "socket (si_network_state message n') = socket n'"
    "consensusCache (si_network_state message n') = consensusCache n'"
    "address (si_network_state message n') = address n'"
    "authoritySetId (si_network_state message n') = authoritySetId n'"
    "lastMessage (si_network_state message n') = lastMessage n'" for n'
    by (simp_all add: si_network_state_def)
  show "throttle (onSystemInterval d now message n) = throttle n"
    "timers (onSystemInterval d now message n) = timers n"
    "socket (onSystemInterval d now message n) = socket n"
    "consensusCache (onSystemInterval d now message n) = consensusCache n"
    "address (onSystemInterval d now message n) = address n"
    "authoritySetId (onSystemInterval d now message n) = authoritySetId n"
    "lastMessage (onSystemInterval d now message n) = lastMessage n"
    by (simp_all add: onSystemInterval_def a b c e)
qed

lemma onMessage_timer_fields:
  "(throttle (state_of (onMessage d now m n)), timers (state_of (onMessage d now m n))) =
     (case getBestBlock d m of
        None \<Rightarrow> (throttle n, timers n)
      | Some u \<Rightarrow> (throttle (state_of (updateBestBlock now u (n\<lparr>lastMessage := now\<rparr>))),
                  timers (state_of (updateBestBlock now u (n\<lparr>lastMessage := now\<rparr>)))))"
proof -
  let ?F = "\<lambda>n. (throttle n, timers n)"
  have "?F (state_of (onMessage d now m n)) = ?F (state_of (dispatch d now m n))"
    by (rule onMessage_frame) simp
  also have "\<dots> = (let n1 = (case getBestBlock d m of
                  None \<Rightarrow> n\<lparr>lastMessage := now\<rparr>
                | Some u \<Rightarrow> state_of (updateBestBlock now u (n\<lparr>lastMessage := now\<rparr>)))
      in case m of MsgSystemInterval si \<Rightarrow> ?F (onSystemInterval d now si n1) | _ \<Rightarrow> ?F n1)"
    by (rule dispatch_frame) simp
  also have "\<dots> = (case getBestBlock d m of
        None \<Rightarrow> (throttle n, timers n)
      | Some u \<Rightarrow> (throttle (state_of (updateBestBlock now u (n\<lparr>lastMessage := now\<rparr>))),
                  timers (state_of (updateBestBlock now u (n\<lparr>lastMessage := now\<rparr>)))))"
    by (simp add: Let_def onSystemInterval_frame split: Message.splits option.splits)
  finally show ?thesis .
qed

lemma updateBestBlock_timer_inv:
  assumes "throttle n = (timers n \<noteq> [])" "length (timers n) \<le> 1"
  shows "throttle (state_of (updateBestBlock now u n)) = (timers (state_of (updateBestBlock now u n)) \<noteq> [])
     \<and> length (timers (state_of (updateBestBlock now u n))) \<le> 1"
  using assms by (auto simp: updateBestBlock_value state_of_def Let_def emit_def)

lemma step_timer_inv:
  assumes "throttle n = (timers n \<noteq> [])" "length (timers n) \<le> 1"
  shows "throttle (step d n s) = (timers (step d n s) \<noteq> []) \<and> length (timers (step d n s)) \<le> 1"
proof (cases s)
  case (Receive now m)
  have "throttle (n\<lparr>lastMessage := now\<rparr>) = (timers (n\<lparr>lastMessage := now\<rparr>) \<noteq> [])"
    "length (timers (n\<lparr>lastMessage := now\<rparr>)) \<le> 1"
    using assms by simp_all
  from updateBestBlock_timer_inv[OF this] assms
  have "throttle (state_of (onMessage d now m n)) = (timers (state_of (onMessage d now m n)) \<noteq> [])
     \<and> length (timers (state_of (onMessage d now m n))) \<le> 1"
    using onMessage_timer_fields[of d now m n] by (auto split: option.splits)
  then show ?thesis using assms Receive by simp
next
  case (TimeoutCheck now p)
  then show ?thesis using assms
    by (simp add: timeoutCheck_def updateLatency_def disconnect_def emit_def Let_def)
next
  case BlockTimer
  then show ?thesis using assms
    by (cases "timers n") (auto simp: block_timer_callback_def emit_def)
qed (use assms in \<open>simp_all add: disconnect_def emit_def\<close>)

lemma steps_timer_inv:
  assumes "throttle n = (timers n \<noteq> [])" "length (timers n) \<le> 1"
  shows "throttle (steps d n ss) = (timers (steps d n ss) \<noteq> []) \<and> length (timers (steps d n ss)) \<le> 1"
  using assms
proof (induction ss arbitrary: n)
  case Nil
  then show ?case by (simp add: steps_def)
next
  case (Cons s ss)
  from step_timer_inv[OF Cons.prems, of d s]
  have "throttle (steps d (step d n s) ss) = (timers (steps d (step d n s) ss) \<noteq> [])
     \<and> length (timers (steps d (step d n s) ss)) \<le> 1"
    by (intro Cons.IH) simp_all
  then show ?case by (simp add: steps_def)
qed

lemma updateBestBlock_coalescing:
  assumes "spec_applies update n"
  shows "\<exists>n'. updateBestBlock now update n = Inr n' \<and>
         (if getBlockTime (bb_ts update) n > 100
          then emitted n n' = [EvBlock] \<and> timers n' = timers n \<and> throttle n' = throttle n
          else if throttle n
               then emitted n n' = [] \<and> timers n' = timers n \<and> throttle n'
               else emitted n n' = [] \<and> timers n' = timers n @ [now + 1000] \<and> throttle n')"
  using assms
  by (auto simp: updateBestBlock_value spec_applies_def Let_def emit_def emitted_def)

lemma updateBestBlock_sub100:
  assumes "if spec_applies update n then getBlockTime (bb_ts update) n \<le> 100 else True"
  shows "\<exists>n'. updateBestBlock now update n = Inr n' \<and> events n' = events n \<and>
         (if throttle n then timers n' = timers n \<and> throttle n'
          else n' = n \<or> (timers n' = timers n @ [now + 1000] \<and> throttle n'))"
  using assms
  by (auto simp: updateBestBlock_value spec_applies_def Let_def emit_def split: if_splits)

lemma burst_no_events:
  assumes "sub100_burst us n"
  shows "\<exists>n''. updateBestBlocks us n = Inr n'' \<and> events n'' = events n \<and>
         (if throttle n then timers n'' = timers n \<and> throttle n''
          else (timers n'' = timers n \<and> \<not> throttle n'') \<or> (\<exists>t. timers n'' = timers n @ [t] \<and> throttle n''))"
  using assms
proof (induction us arbitrary: n)
  case Nil
  then show ?case by simp
next
  case (Cons p us)
  obtain now u where p: "p = (now, u)" by (cases p)
  from Cons.prems have h: "if spec_applies u n then getBlockTime (bb_ts u) n \<le> 100 else True"
    and b: "sub100_burst us (state_of (updateBestBlock now u n))"
    unfolding p by simp_all
  from updateBestBlock_sub100[OF h, of now] obtain n1 where
    n1: "updateBestBlock now u n = Inr n1" "events n1 = events n"
      "if throttle n then timers n1 = timers n \<and> throttle n1
          else n1 = n \<or> (timers n1 = timers n @ [now + 1000] \<and> throttle n1)"
    by blast
  have "sub100_burst us n1" using b n1(1) by (simp add: state_of_def)
  from Cons.IH[OF this] obtain n2 where
    n2: "updateBestBlocks us n1 = Inr n2" "events n2 = events n1"
      "if throttle n1 then timers n2 = timers n1 \<and> throttle n2
          else (timers n2 = timers n1 \<and> \<not> throttle n2) \<or> (\<exists>t. timers n2 = timers n1 @ [t] \<and> throttle n2)"
    by blast
  have "updateBestBlocks (p # us) n = Inr n2" using n1(1) n2(1) by (simp add: p and_then_def)
  moreover have "events n2 = events n" using n1(2) n2(2) by simp
  moreover have "if throttle n then timers n2 = timers n \<and> throttle n2
          else (timers n2 = timers n \<and> \<not> throttle n2) \<or> (\<exists>t. timers n2 = timers n @ [t] \<and> throttle n2)"
    using n1(3) n2(3) by (auto split: if_splits)
  ultimately show ?case by blast
qed

text \<open>
  C8. For an applied best-block update: a block time above 100 ms emits one block event at
  once; otherwise no block event is emitted at once, and a timer due one second later is
  started only when none is pending. A burst of updates of at most 100 ms emits nothing and
  leaves at most one timer started; the timer emits exactly one block event and clears
  the pending flag; a session never has more than one timer pending.
\<close>

theorem block_events_coalesced:
  "(spec_applies update n \<longrightarrow>
      (\<exists>n'. updateBestBlock now update n = Inr n' \<and>
         (if getBlockTime (bb_ts update) n > 100
          then emitted n n' = [EvBlock] \<and> timers n' = timers n \<and> throttle n' = throttle n
          else if throttle n
               then emitted n n' = [] \<and> timers n' = timers n \<and> throttle n'
               else emitted n n' = [] \<and> timers n' = timers n @ [now + 1000] \<and> throttle n')))
   \<and> (sub100_burst us n \<longrightarrow>
      (\<exists>n''. updateBestBlocks us n = Inr n'' \<and> emitted n n'' = [] \<and>
         (if throttle n then timers n'' = timers n
          else timers n'' = timers n \<or> (\<exists>t. timers n'' = timers n @ [t]))))
   \<and> (case timers n of
        [] \<Rightarrow> step d n BlockTimer = n
      | t # ts \<Rightarrow> emitted n (step d n BlockTimer) = [EvBlock]
                 \<and> \<not> throttle (step d n BlockTimer) \<and> timers (step d n BlockTimer) = ts)
   \<and> length (timers (steps d (new_Node now0 addr) ss)) \<le> 1
   \<and> throttle (steps d (new_Node now0 addr) ss) = (timers (steps d (new_Node now0 addr) ss) \<noteq> [])"
proof -
  have a: "spec_applies update n \<longrightarrow>
      (\<exists>n'. updateBestBlock now update n = Inr n' \<and>
         (if getBlockTime (bb_ts update) n > 100
          then emitted n n' = [EvBlock] \<and> timers n' = timers n \<and> throttle n' = throttle n
          else if throttle n
               then emitted n n' = [] \<and> timers n' = timers n \<and> throttle n'
               else emitted n n' = [] \<and> timers n' = timers n @ [now + 1000] \<and> throttle n'))"
    using updateBestBlock_coalescing by blast
  have b: "sub100_burst us n \<longrightarrow>
      (\<exists>n''. updateBestBlocks us n = Inr n'' \<and> emitted n n'' = [] \<and>
         (if throttle n then timers n'' = timers n
          else timers n'' = timers n \<or> (\<exists>t. timers n'' = timers n @ [t])))"
  proof
    assume "sub100_burst us n"
    from burst_no_events[OF this] obtain n'' where
      "updateBestBlocks us n = Inr n''" "events n'' = events n"
      "if throttle n then timers n'' = timers n \<and> throttle n''
          else (timers n'' = timers n \<and> \<not> throttle n'') \<or> (\<exists>t. timers n'' = timers n @ [t] \<and> throttle n'')"
      by blast
    then show "\<exists>n''. updateBestBlocks us n = Inr n'' \<and> emitted n n'' = [] \<and>
         (if throttle n then timers n'' = timers n
          else timers n'' = timers n \<or> (\<exists>t. timers n'' = timers n @ [t]))"
      by (intro exI[of _ n'']) (auto simp: emitted_def split: if_splits)
  qed
  have c: "case timers n of
        [] \<Rightarrow> step d n BlockTimer = n
      | t # ts \<Rightarrow> emitted n (step d n BlockTimer) = [EvBlock]
                 \<and> \<not> throttle (step d n BlockTimer) \<and> timers (step d n BlockTimer) = ts"
    by (simp add: block_timer_callback_def emit_def emitted_def split: list.splits)
  have e: "throttle (steps d (new_Node now0 addr) ss) = (timers (steps d (new_Node now0 addr) ss) \<noteq> [])
     \<and> length (timers (steps d (new_Node now0 addr) ss)) \<le> 1"
    by (rule steps_timer_inv) (simp_all add: new_Node_def)
  show ?thesis using a b c e by blast
qed

theorem block_events_coalesced_witness:
  "spec_applies \<lparr>bb_height = 1, bb_ts = 50, bb_best = ''0xa''\<rparr>
     ((new_Node 0 Null)\<lparr>throttle := True, timers := [1000]\<rparr>)
   \<and> sub100_burst [(10, \<lparr>bb_height = 1, bb_ts = 50, bb_best = ''0xa''\<rparr>)]
        ((new_Node 0 Null)\<lparr>throttle := True, timers := [1000]\<rparr>)
   \<and> (\<exists>n'. updateBestBlock 10 \<lparr>bb_height = 1, bb_ts = 50, bb_best = ''0xa''\<rparr>
              ((new_Node 0 Null)\<lparr>throttle := True, timers := [1000]\<rparr>) = Inr n'
          \<and> emitted ((new_Node 0 Null)\<lparr>throttle := True, timers := [1000]\<rparr>) n' = []
          \<and> timers n' = [1000])
   \<and> (\<exists>n''. updateBestBlocks [(10, \<lparr>bb_height = 1, bb_ts = 50, bb_best = ''0xa''\<rparr>)]
              ((new_Node 0 Null)\<lparr>throttle := True, timers := [1000]\<rparr>) = Inr n''
          \<and> emitted ((new_Node 0 Null)\<lparr>throttle := True, timers := [1000]\<rparr>) n'' = []
          \<and> timers n'' = [1000])
   \<and> emitted ((new_Node 0 Null)\<lparr>throttle := True, timers := [1000]\<rparr>)
        (step sample_deps ((new_Node 0 Null)\<lparr>throttle := True, timers := [1000]\<rparr>) BlockTimer)
      = [EvBlock]"
proof -
  let ?u = "\<lparr>bb_height = 1, bb_ts = 50, bb_best = ''0xa''\<rparr>"
  let ?n = "(new_Node 0 Null)\<lparr>throttle := True, timers := [1000]\<rparr>"
  have h1: "spec_applies ?u ?n"
    by (simp add: spec_applies_def new_Node_def Block_ZERO_def)
  have g: "getBlockTime (bb_ts ?u) ?n = 0"
    by (simp add: getBlockTime_def new_Node_def)
  have h2: "sub100_burst [(10, ?u)] ?n"
    using h1 g by simp
  have t: "throttle ?n" "timers ?n = [1000]" by simp_all
  note T = block_events_coalesced [of ?u ?n 10 "[(10, ?u)]" sample_deps 0 Null "[]"]
  from T h1 g t have a: "\<exists>n'. updateBestBlock 10 ?u ?n = Inr n'
      \<and> emitted ?n n' = [] \<and> timers n' = [1000]"
    by auto
  from T h2 t have b: "\<exists>n''. updateBestBlocks [(10, ?u)] ?n = Inr n''
      \<and> emitted ?n n'' = [] \<and> timers n'' = [1000]"
    by auto
  from T t have c: "emitted ?n (step sample_deps ?n BlockTimer) = [EvBlock]"
    by auto
  show ?thesis using h1 h2 a b c by blast
qed



section \<open>Disconnect\<close>

lemma cache_handler_disconnects:
  "count_list (events (state_of (and_then (on_cache n r) (\<lambda>n1. Inr (emit EvConsensusInfo n1)))))
      EvDisconnect = count_list (events n) EvDisconnect"
  by (cases r) (auto simp: on_cache_def and_then_def state_of_def emit_def split: prod.splits)

lemma onSystemInterval_disconnects:
  "count_list (events (onSystemInterval d now message n)) EvDisconnect
     = count_list (events n) EvDisconnect"
proof -
  obtain xs ys zs where "events (onSystemInterval d now message n) = events n @ xs @ ys @ zs"
    "EvDisconnect \<notin> set (xs @ ys @ zs)"
    using onSystemInterval_events[of d now message n] by blast
  then show ?thesis by simp
qed

lemma dispatch_disconnects:
  "count_list (events (state_of (dispatch d now m n))) EvDisconnect
     = count_list (events n) EvDisconnect"
proof -
  have "\<exists>n1. (case getBestBlock d m of
          None \<Rightarrow> Inr (n\<lparr>lastMessage := now\<rparr>)
        | Some update \<Rightarrow> updateBestBlock now update (n\<lparr>lastMessage := now\<rparr>)) = Inr n1
      \<and> count_list (events n1) EvDisconnect = count_list (events n) EvDisconnect"
    by (auto simp: updateBestBlock_value Let_def emit_def split: option.splits)
  then obtain n1 where n1: "(case getBestBlock d m of
          None \<Rightarrow> Inr (n\<lparr>lastMessage := now\<rparr>)
        | Some update \<Rightarrow> updateBestBlock now update (n\<lparr>lastMessage := now\<rparr>)) = Inr n1"
    and c: "count_list (events n1) EvDisconnect = count_list (events n) EvDisconnect"
    by blast
  show ?thesis
  proof (cases m)
    case (MsgSystemInterval si)
    then show ?thesis using c n1
      by (simp add: dispatch_def and_then_def state_of_def onSystemInterval_disconnects)
  next
    case (MsgNotifyFinalized b h)
    then show ?thesis using c n1 cache_handler_disconnects
      by (simp add: dispatch_def and_then_def[of "Inr n1"] onNotifyFinalized_def)
  next
    case (MsgAfgFinalized h b)
    then show ?thesis using c n1 cache_handler_disconnects
      by (simp add: dispatch_def and_then_def[of "Inr n1"] onAfgFinalized_def Let_def)
  next
    case (MsgAfgReceivedPrecommit h b v)
    then show ?thesis using c n1 cache_handler_disconnects
      by (simp add: dispatch_def and_then_def[of "Inr n1"] onAfgReceivedPrecommit_def Let_def)
  next
    case (MsgAfgReceivedPrevote h b v)
    then show ?thesis using c n1 cache_handler_disconnects
      by (simp add: dispatch_def and_then_def[of "Inr n1"] onAfgReceivedPrevote_def Let_def)
  next
    case (MsgAfgAuthoritySet i h k s)
    then show ?thesis using c n1
      by (simp add: dispatch_def and_then_def state_of_def onAfgAuthoritySet_def emit_def
          Let_def split: option.splits)
  next
    case MsgOther
    then show ?thesis using c n1 by (simp add: dispatch_def and_then_def state_of_def)
  qed
qed

lemma onMessage_disconnects:
  "count_list (events (state_of (onMessage d now m n))) EvDisconnect
     = count_list (events n) EvDisconnect"
  using dispatch_disconnects[of d now m n]
  by (cases "dispatch d now m n")
     (auto simp: onMessage_def and_then_def state_of_def truncateBlockCache_def)

text \<open>
  C9, as the code has it. Every call of \<^verbatim>\<open>disconnect\<close> releases the listeners, closes and
  terminates the socket and emits one disconnect event, whether or not the session was
  disconnected before. Socket notifications no longer reach a session whose listeners are
  released, and handling a message never emits the event; a timeout check past the
  timeout, or one whose ping throws, disconnects again.
\<close>

theorem disconnect_once_per_call:
  "emitted n (disconnect n) = [EvDisconnect]
   \<and> calls (socket (disconnect n)) = calls (socket n) @ [RemoveAllListeners, Close, Terminate]
   \<and> listeners (socket (disconnect n)) = False
   \<and> (if listeners (socket n)
      then step d n SocketClose = disconnect n \<and> step d n SocketError = disconnect n
      else step d n SocketClose = n \<and> step d n SocketError = n
           \<and> step d n (Receive now m) = n \<and> step d n (Pong now) = n)
   \<and> (if lastMessage n + TIMEOUT < now
      then step d n (TimeoutCheck now ping_throws) = disconnect n
      else if ping_throws
           then emitted n (step d n (TimeoutCheck now ping_throws)) = [EvDisconnect]
           else emitted n (step d n (TimeoutCheck now ping_throws)) = [])
   \<and> count_list (events (state_of (onMessage d now m n))) EvDisconnect
       = count_list (events n) EvDisconnect"
  by (simp add: onMessage_disconnects disconnect_def emit_def emitted_def timeoutCheck_def
      updateLatency_def Let_def)

theorem disconnect_once_per_call_witness:
  "listeners (socket (disconnect (new_Node 0 Null))) = False
   \<and> step sample_deps (disconnect (new_Node 0 Null)) SocketClose = disconnect (new_Node 0 Null)
   \<and> lastMessage (disconnect (new_Node 0 Null)) + TIMEOUT < 60001
   \<and> emitted (disconnect (new_Node 0 Null))
        (step sample_deps (disconnect (new_Node 0 Null)) (TimeoutCheck 60001 False)) = [EvDisconnect]"
proof -
  let ?n = "disconnect (new_Node 0 Null)"
  have h1: "listeners (socket ?n) = False" by (simp add: disconnect_def emit_def)
  have h2: "lastMessage ?n + TIMEOUT < 60001"
    by (simp add: disconnect_def emit_def new_Node_def TIMEOUT_def)
  note T = disconnect_once_per_call [of ?n sample_deps 60001 MsgOther False]
  from T h1 have a: "step sample_deps ?n SocketClose = ?n" by simp
  from T h2 have "step sample_deps ?n (TimeoutCheck 60001 False) = disconnect ?n" by simp
  moreover from disconnect_once_per_call [of ?n sample_deps 60001 MsgOther False]
  have "emitted ?n (disconnect ?n) = [EvDisconnect]" by blast
  ultimately show ?thesis using h1 h2 a by simp
qed

text \<open>
  C9, as stated, fails: two timeout checks of a session that has been silent for more than
  a minute emit the disconnect event twice.
\<close>

theorem disconnect_emitted_twice:
  "count_list (events (steps sample_deps (new_Node 0 Null)
     [TimeoutCheck 60001 False, TimeoutCheck 60002 False])) EvDisconnect = 2"
  by (simp add: steps_def timeoutCheck_def TIMEOUT_def disconnect_def emit_def new_Node_def)

section \<open>Authority set\<close>

lemma authoritySetId_never_stored: "authoritySetId (step d n s) = authoritySetId n"
proof (cases s)
  case (Receive now m)
  have "authoritySetId (state_of (onMessage d now m n)) = authoritySetId (state_of (dispatch d now m n))"
    by (rule onMessage_frame) simp
  also have "\<dots> = authoritySetId n"
    using dispatch_frame[of authoritySetId d now m n]
    by (simp add: Let_def onSystemInterval_frame best_phase_frame(5)[OF refl] split: Message.splits)
  finally show ?thesis using Receive by simp
next
  case (TimeoutCheck now p)
  then show ?thesis
    by (simp add: timeoutCheck_def updateLatency_def disconnect_def emit_def Let_def)
next
  case BlockTimer
  then show ?thesis by (simp add: block_timer_callback_def emit_def split: list.splits)
qed (simp_all add: disconnect_def emit_def)

lemma onAfgAuthoritySet_emits_when_id_differs:
  assumes "JSON_parse d s = Some a" "authoritySetId n \<noteq> sid"
  shows "onAfgAuthoritySet d sid h k s n =
     Inr (n\<lparr>events := events n @ [EvAuthoritySetChanged a sid k h], authorities := a\<rparr>)"
  using assms by (simp add: onAfgAuthoritySet_def emit_def)

text \<open>
  C5. The code departs from the claim: the set id of the session is compared but never
  stored, so two consecutive \<^verbatim>\<open>afg.authority_set\<close> messages with the same encoded list and
  the same set id 1 both emit the authority-set-changed event.
\<close>

theorem authority_set_changed_repeats:
  "events (steps sample_deps (new_Node 0 (Just ''5Grw''))
     [Receive 1 (MsgAfgAuthoritySet 1 ''0xaa'' 7 (''['' @ quoted ''5Grw'' @ '']'')),
      Receive 2 (MsgAfgAuthoritySet 1 ''0xaa'' 7 (''['' @ quoted ''5Grw'' @ '']''))])
   = [EvAuthoritySetChanged [''5Grw''] 1 7 ''0xaa'', EvAuthoritySetChanged [''5Grw''] 1 7 ''0xaa'']"
  by (simp add: steps_def onMessage_def dispatch_def and_then_def state_of_def sample_deps_def
      onAfgAuthoritySet_def new_Node_def emit_def truncateBlockCache_def truncate_keys_def
      keys_def quoted_def Let_def)


section \<open>Implicit flags\<close>

lemma lookup_create_row:
  "lookup c h = None \<Longrightarrow> lookup (create_row h r c) k = (if k = h then Some r else lookup c k)"
  by (simp add: lookup_def map_of_create_row)

lemma lookup_set_row:
  "lookup (set_row h r c) k = (if k = h \<and> lookup c h \<noteq> None then Some r else lookup c k)"
  by (simp add: lookup_def map_of_set_row)

lemma flag_at_set_row_other:
  "k \<noteq> h \<Longrightarrow> flag_at P (set_row h r c) k v = flag_at P c k v"
  by (simp add: flag_at_def lookup_set_row)

lemma flag_at_set_row_same:
  "lookup c h = Some r0 \<Longrightarrow>
   flag_at P (set_row h r c) h v = (case r v of None \<Rightarrow> False | Some info \<Rightarrow> P info)"
  by (simp add: flag_at_def lookup_set_row)

lemma flag_at_create_empty:
  assumes "lookup c h = None"
  shows "flag_at P (create_row h Map.empty c) k v = flag_at P c k v"
proof (cases "k = h")
  case True
  then show ?thesis using assms by (simp add: flag_at_def lookup_create_row)
next
  case False
  then show ?thesis using assms by (simp add: flag_at_def lookup_create_row)
qed

lemma flag_at_add_voter:
  assumes "lookup c h = Some r" "r w = None" "\<not> P empty_info"
  shows "flag_at P (set_row h (r(w \<mapsto> empty_info)) c) k v = flag_at P c k v"
proof (cases "k = h")
  case True
  have "flag_at P (set_row h (r(w \<mapsto> empty_info)) c) h v
      = (case (r(w \<mapsto> empty_info)) v of None \<Rightarrow> False | Some info \<Rightarrow> P info)"
    using assms(1) by (rule flag_at_set_row_same)
  also have "\<dots> = (case r v of None \<Rightarrow> False | Some info \<Rightarrow> P info)"
    using assms(2,3) by (cases "v = w") simp_all
  also have "\<dots> = flag_at P c h v" using assms(1) by (simp add: flag_at_def)
  finally show ?thesis using True by simp
next
  case False
  then show ?thesis by (rule flag_at_set_row_other)
qed

lemma flag_at_initialise:
  assumes "\<not> P empty_info"
  shows "flag_at P (initialiseConsensusView h a c) k v = flag_at P c k v"
proof -
  define c1 where "c1 = (if lookup c h = None then create_row h Map.empty c else c)"
  have c1: "flag_at P c1 k v = flag_at P c k v"
    unfolding c1_def by (simp add: flag_at_create_empty)
  have i: "initialiseConsensusView h a c =
      (if truthy a
         then (case lookup c1 h of
                 None \<Rightarrow> c1
               | Some r \<Rightarrow>
                   if r (String_of a) = None
                   then set_row h (r(String_of a \<mapsto> empty_info)) c1
                   else c1)
         else c1)"
    unfolding initialiseConsensusView_def c1_def Let_def ..
  show ?thesis
  proof (cases "lookup c1 h")
    case None
    then show ?thesis using c1 by (simp add: i)
  next
    case (Some r)
    show ?thesis
    proof (cases "truthy a \<and> r (String_of a) = None")
      case True
      then have "initialiseConsensusView h a c = set_row h (r(String_of a \<mapsto> empty_info)) c1"
        using Some by (simp add: i)
      moreover have "flag_at P (set_row h (r(String_of a \<mapsto> empty_info)) c1) k v = flag_at P c1 k v"
        using Some True assms
        by (intro flag_at_add_voter[where P = P and r = r and w = "String_of a"]) simp_all
      ultimately show ?thesis using c1 by simp
    next
      case False
      then have "initialiseConsensusView h a c = c1"
        using Some by (auto simp: i)
      then show ?thesis using c1 by simp
    qed
  qed
qed

lemma update_info_Inl: "update_info h w g c = Inl (e, c') \<Longrightarrow> c' = c"
  by (cases "lookup c h"; cases "the (lookup c h) w") (simp_all add: update_info_def)

lemma flag_at_update_info:
  assumes "\<And>i. P (g i) = P i" and "update_info h w g c = Inr c'"
  shows "flag_at P c' k v = flag_at P c k v"
proof -
  from assms(2) obtain r info where r: "lookup c h = Some r" and i: "r w = Some info"
    and c': "c' = set_row h (r(w \<mapsto> g info)) c"
    by (cases "lookup c h"; cases "the (lookup c h) w") (simp_all add: update_info_def)
  show ?thesis
  proof (cases "k = h")
    case True
    have "flag_at P c' h v = (case (r(w \<mapsto> g info)) v of None \<Rightarrow> False | Some info \<Rightarrow> P info)"
      unfolding c' using r by (rule flag_at_set_row_same)
    also have "\<dots> = (case r v of None \<Rightarrow> False | Some info \<Rightarrow> P info)"
      using i assms(1) by (cases "v = w") simp_all
    also have "\<dots> = flag_at P c h v" using r by (simp add: flag_at_def)
    finally show ?thesis using True by simp
  next
    case False
    then show ?thesis unfolding c' by (rule flag_at_set_row_other)
  qed
qed

lemma map_of_filter_keys:
  "map_of (filter (\<lambda>p. Q (fst p)) c) k = (if Q k then map_of c k else None)"
  by (induction c) auto

lemma lookup_truncate_keys:
  "lookup (truncate_keys m c) k = None \<or> lookup (truncate_keys m c) k = lookup c k"
proof -
  define Q where "Q = (\<lambda>k. \<not> (\<exists>i. (k, i) \<in> set (zip (rev (keys c)) [0..<length (rev (keys c))]) \<and> i > m + 1))"
  have "truncate_keys m c = filter (\<lambda>p. Q (fst p)) c"
    unfolding truncate_keys_def Let_def Q_def by (rule fold_delete_filter)
  then have "lookup (truncate_keys m c) k = (if Q k then lookup c k else None)"
    by (simp only: lookup_def map_of_filter_keys)
  then show ?thesis by (cases "Q k") simp_all
qed

lemma flag_at_truncate_keys:
  "flag_at P (truncate_keys m c) k v \<Longrightarrow> flag_at P c k v"
  using lookup_truncate_keys[of m c k] by (auto simp: flag_at_def)

lemma flag_at_vote:
  assumes 1: "\<not> P empty_info" and 2: "\<And>i. P (g i) = P i"
    and r: "and_then (update_info h w g (initialiseConsensusView h a c))
                (\<lambda>c. drop_value (backfill a' from f c)) = r"
    and o: "r = Inl (e, c') \<or> r = Inr c'"
  shows "flag_at P c' k v = flag_at P c k v"
proof (cases "update_info h w g (initialiseConsensusView h a c)")
  case (Inl x)
  then have "r = Inl x" using r by (simp add: and_then_def)
  then have "x = (e, c')" using o by auto
  then have "c' = initialiseConsensusView h a c"
    using Inl update_info_Inl[of h w g "initialiseConsensusView h a c" e c'] by simp
  then show ?thesis using 1 by (simp add: flag_at_initialise)
next
  case (Inr c1)
  then have "r = Inr c1" using r by (simp add: and_then_def drop_value_def backfill_value)
  then have "c' = c1" using o by auto
  then have "update_info h w g (initialiseConsensusView h a c) = Inr c'" using Inr by simp
  then have "flag_at P c' k v = flag_at P (initialiseConsensusView h a c) k v"
    using 2 by (rule flag_at_update_info[where P = P and g = g, rotated])
  then show ?thesis using 1 by (simp add: flag_at_initialise)
qed

lemma flag_at_notify:
  assumes 1: "\<not> P empty_info" and 2: "\<And>i. P (g i) = P i"
    and r: "update_info h w g (initialiseConsensusView h a c) = r"
    and o: "r = Inl (e, c') \<or> r = Inr c'"
  shows "flag_at P c' k v = flag_at P c k v"
proof (cases "update_info h w g (initialiseConsensusView h a c)")
  case (Inl x)
  then have "x = (e, c')" using r o by auto
  then have "c' = initialiseConsensusView h a c"
    using Inl update_info_Inl[of h w g "initialiseConsensusView h a c" e c'] by simp
  then show ?thesis using 1 by (simp add: flag_at_initialise)
next
  case (Inr c1)
  then have "c' = c1" using r o by auto
  then have "update_info h w g (initialiseConsensusView h a c) = Inr c'" using Inr by simp
  then have "flag_at P c' k v = flag_at P (initialiseConsensusView h a c) k v"
    using 2 by (rule flag_at_update_info[where P = P and g = g, rotated])
  then show ?thesis using 1 by (simp add: flag_at_initialise)
qed

lemma cache_handler_flags:
  assumes "\<And>e c'. r = Inl (e, c') \<or> r = Inr c' \<Longrightarrow> flag_at P c' k v = flag_at P (consensusCache n) k v"
  shows "flag_at P (consensusCache (state_of (and_then (on_cache n r)
            (\<lambda>n1. Inr (emit EvConsensusInfo n1))))) k v = flag_at P (consensusCache n) k v"
proof (cases r)
  case (Inl x)
  obtain e c' where x: "x = (e, c')" by (cases x)
  have "flag_at P c' k v = flag_at P (consensusCache n) k v"
    using assms[of e c'] Inl x by simp
  then show ?thesis using Inl x by (simp add: on_cache_def and_then_def state_of_def)
next
  case (Inr c')
  have "flag_at P c' k v = flag_at P (consensusCache n) k v"
    using assms[of undefined c'] Inr by simp
  then show ?thesis using Inr by (simp add: on_cache_def and_then_def state_of_def emit_def)
qed

lemma handlers_implicit:
  assumes P: "P = ImplicitPrevote \<or> P = ImplicitPrecommit \<or> P = ImplicitFinalized"
  shows "flag_at P (consensusCache (state_of (onNotifyFinalized b h n))) k v = flag_at P (consensusCache n) k v"
    and "flag_at P (consensusCache (state_of (onAfgFinalized h b n))) k v = flag_at P (consensusCache n) k v"
    and "flag_at P (consensusCache (state_of (onAfgReceivedPrecommit h w n))) k v = flag_at P (consensusCache n) k v"
    and "flag_at P (consensusCache (state_of (onAfgReceivedPrevote h w n))) k v = flag_at P (consensusCache n) k v"
proof -
  have 1: "\<not> P empty_info" using P by (auto simp: empty_info_def)
  have 2: "\<And>i. P (i\<lparr>FinalizedHash := Some b\<rparr>) = P i" using P by auto
  have 3: "\<And>i. P (i\<lparr>Precommit := True\<rparr>) = P i" using P by auto
  have 4: "\<And>i. P (i\<lparr>Prevote := True\<rparr>) = P i" using P by auto
  have 5: "\<And>i. P (i\<lparr>Finalized := True, FinalizedHash := Some b,
                    FinalizedHeight := Some h, Prevote := True, Precommit := True\<rparr>) = P i"
    using P by auto
  show "flag_at P (consensusCache (state_of (onNotifyFinalized b h n))) k v = flag_at P (consensusCache n) k v"
    unfolding onNotifyFinalized_def
    by (rule cache_handler_flags)
       (rule flag_at_notify[where P = P and g = "\<lambda>info. info\<lparr>FinalizedHash := Some b\<rparr>", OF 1 2 refl])
  show "flag_at P (consensusCache (state_of (onAfgFinalized h b n))) k v = flag_at P (consensusCache n) k v"
    unfolding onAfgFinalized_def Let_def markFinalized_def
    by (rule cache_handler_flags)
       (rule flag_at_vote[where P = P and g = "\<lambda>info. info\<lparr>Finalized := True, FinalizedHash := Some b,
                    FinalizedHeight := Some h, Prevote := True, Precommit := True\<rparr>", OF 1 5 refl])
  show "flag_at P (consensusCache (state_of (onAfgReceivedPrecommit h w n))) k v = flag_at P (consensusCache n) k v"
    unfolding onAfgReceivedPrecommit_def Let_def
    by (rule cache_handler_flags)
       (rule flag_at_vote[where P = P and g = "\<lambda>info. info\<lparr>Precommit := True\<rparr>", OF 1 3 refl])
  show "flag_at P (consensusCache (state_of (onAfgReceivedPrevote h w n))) k v = flag_at P (consensusCache n) k v"
    unfolding onAfgReceivedPrevote_def Let_def
    by (rule cache_handler_flags)
       (rule flag_at_vote[where P = P and g = "\<lambda>info. info\<lparr>Prevote := True\<rparr>", OF 1 4 refl])
qed

lemma dispatch_state:
  "\<exists>n1. consensusCache n1 = consensusCache n \<and> address n1 = address n
     \<and> dispatch d now m n =
       (case m of
          MsgSystemInterval si \<Rightarrow> Inr (onSystemInterval d now si n1)
        | MsgNotifyFinalized b h \<Rightarrow> onNotifyFinalized b h n1
        | MsgAfgFinalized h b \<Rightarrow> onAfgFinalized h b n1
        | MsgAfgReceivedPrecommit h b v \<Rightarrow> onAfgReceivedPrecommit h v n1
        | MsgAfgReceivedPrevote h b v \<Rightarrow> onAfgReceivedPrevote h v n1
        | MsgAfgAuthoritySet i h k s \<Rightarrow> onAfgAuthoritySet d i h k s n1
        | MsgOther \<Rightarrow> Inr n1)"
proof -
  define n1 where "n1 = (case getBestBlock d m of
                  None \<Rightarrow> n\<lparr>lastMessage := now\<rparr>
                | Some u \<Rightarrow> state_of (updateBestBlock now u (n\<lparr>lastMessage := now\<rparr>)))"
  have r: "(case getBestBlock d m of
          None \<Rightarrow> Inr (n\<lparr>lastMessage := now\<rparr>)
        | Some update \<Rightarrow> updateBestBlock now update (n\<lparr>lastMessage := now\<rparr>)) = Inr n1"
    unfolding n1_def by (simp add: updateBestBlock_value state_of_def split: option.splits)
  have "dispatch d now m n =
       (case m of
          MsgSystemInterval si \<Rightarrow> Inr (onSystemInterval d now si n1)
        | MsgNotifyFinalized b h \<Rightarrow> onNotifyFinalized b h n1
        | MsgAfgFinalized h b \<Rightarrow> onAfgFinalized h b n1
        | MsgAfgReceivedPrecommit h b v \<Rightarrow> onAfgReceivedPrecommit h v n1
        | MsgAfgReceivedPrevote h b v \<Rightarrow> onAfgReceivedPrevote h v n1
        | MsgAfgAuthoritySet i h k s \<Rightarrow> onAfgAuthoritySet d i h k s n1
        | MsgOther \<Rightarrow> Inr n1)"
    unfolding dispatch_def r by (simp add: and_then_def)
  then show ?thesis
    using best_phase_frame(2)[OF n1_def] best_phase_frame(6)[OF n1_def] by blast
qed

lemma dispatch_implicit:
  assumes P: "P = ImplicitPrevote \<or> P = ImplicitPrecommit \<or> P = ImplicitFinalized"
  shows "flag_at P (consensusCache (state_of (dispatch d now m n))) k v
     = flag_at P (consensusCache n) k v"
proof -
  obtain n1 where c: "consensusCache n1 = consensusCache n"
    and e: "dispatch d now m n =
       (case m of
          MsgSystemInterval si \<Rightarrow> Inr (onSystemInterval d now si n1)
        | MsgNotifyFinalized b h \<Rightarrow> onNotifyFinalized b h n1
        | MsgAfgFinalized h b \<Rightarrow> onAfgFinalized h b n1
        | MsgAfgReceivedPrecommit h b v \<Rightarrow> onAfgReceivedPrecommit h v n1
        | MsgAfgReceivedPrevote h b v \<Rightarrow> onAfgReceivedPrevote h v n1
        | MsgAfgAuthoritySet i h k s \<Rightarrow> onAfgAuthoritySet d i h k s n1
        | MsgOther \<Rightarrow> Inr n1)"
    using dispatch_state[of n d now m] by blast
  show ?thesis
  proof (cases m)
    case (MsgSystemInterval si)
    then show ?thesis using c e by (simp add: state_of_def onSystemInterval_frame)
  next
    case (MsgNotifyFinalized b h)
    then show ?thesis using c e handlers_implicit(1)[OF P, of b h n1 k v] by simp
  next
    case (MsgAfgFinalized h b)
    then show ?thesis using c e handlers_implicit(2)[OF P, of h b n1 k v] by simp
  next
    case (MsgAfgReceivedPrecommit h b w)
    then show ?thesis using c e handlers_implicit(3)[OF P, of h w n1 k v] by simp
  next
    case (MsgAfgReceivedPrevote h b w)
    then show ?thesis using c e handlers_implicit(4)[OF P, of h w n1 k v] by simp
  next
    case (MsgAfgAuthoritySet i h x s)
    have "consensusCache (state_of (onAfgAuthoritySet d i h x s n1)) = consensusCache n1"
      by (simp add: onAfgAuthoritySet_def state_of_def emit_def Let_def split: option.splits)
    then show ?thesis using c e MsgAfgAuthoritySet by simp
  next
    case MsgOther
    then show ?thesis using c e by (simp add: state_of_def)
  qed
qed

lemma onMessage_implicit:
  assumes P: "P = ImplicitPrevote \<or> P = ImplicitPrecommit \<or> P = ImplicitFinalized"
    and "flag_at P (consensusCache (state_of (onMessage d now m n))) k v"
  shows "flag_at P (consensusCache n) k v"
proof (cases "dispatch d now m n")
  case (Inl x)
  then have "state_of (onMessage d now m n) = state_of (dispatch d now m n)"
    by (simp add: onMessage_def and_then_def)
  then show ?thesis using assms(2) dispatch_implicit[OF P, of d now m n k v] by simp
next
  case (Inr n1)
  then have "consensusCache (state_of (onMessage d now m n))
      = truncate_keys (MAX_BLOCKS_IN_NODE_CACHE d) (consensusCache n1)"
    by (simp add: onMessage_def and_then_def state_of_def truncateBlockCache_def)
  then have "flag_at P (consensusCache n1) k v"
    using assms(2) flag_at_truncate_keys by simp
  then show ?thesis using dispatch_implicit[OF P, of d now m n k v] Inr by (simp add: state_of_def)
qed

lemma step_implicit:
  assumes P: "P = ImplicitPrevote \<or> P = ImplicitPrecommit \<or> P = ImplicitFinalized"
    and "flag_at P (consensusCache (step d n s)) k v"
  shows "flag_at P (consensusCache n) k v"
proof (cases s)
  case (Receive now m)
  then show ?thesis using assms(2) onMessage_implicit[OF P, of d now m n k v]
    by (cases "listeners (socket n)") simp_all
next
  case (TimeoutCheck now p)
  then show ?thesis using assms(2)
    by (simp add: timeoutCheck_def updateLatency_def disconnect_def emit_def Let_def split: if_splits)
next
  case BlockTimer
  then show ?thesis using assms(2)
    by (simp add: block_timer_callback_def emit_def split: list.splits)
qed (use assms(2) in \<open>simp_all add: disconnect_def emit_def split: if_splits\<close>)

lemma steps_implicit:
  assumes P: "P = ImplicitPrevote \<or> P = ImplicitPrecommit \<or> P = ImplicitFinalized"
    and "flag_at P (consensusCache (steps d n ss)) k v"
  shows "flag_at P (consensusCache n) k v"
  using assms(2)
proof (induction ss arbitrary: n)
  case Nil
  then show ?case by (simp add: steps_def)
next
  case (Cons s ss)
  then have "flag_at P (consensusCache (steps d (step d n s) ss)) k v" by (simp add: steps_def)
  then have "flag_at P (consensusCache (step d n s)) k v" by (rule Cons.IH)
  then show ?case by (rule step_implicit[OF P])
qed

lemma new_Node_no_flags: "\<not> flag_at P (consensusCache (new_Node now0 addr)) k v"
  by (simp add: new_Node_def flag_at_def lookup_def)

text \<open>
  C4. Once the explicit Prevote flag is true for a height and a voter, and the implicit
  one is not set, no later message or step sets ImplicitPrevote for that height and
  voter; the same holds for Precommit and Finalized. No implicit flag is ever set in a
  state a session can reach, because \<^verbatim>\<open>backfill\<close> never runs its continuation function.
\<close>

theorem implicit_never_set_once_explicit:
  "(flag_at Prevote (consensusCache n) h v \<and> \<not> flag_at ImplicitPrevote (consensusCache n) h v
      \<longrightarrow> \<not> flag_at ImplicitPrevote (consensusCache (state_of (onMessage d now m n))) h v
          \<and> \<not> flag_at ImplicitPrevote (consensusCache (steps d n ss)) h v)
   \<and> (flag_at Precommit (consensusCache n) h v \<and> \<not> flag_at ImplicitPrecommit (consensusCache n) h v
      \<longrightarrow> \<not> flag_at ImplicitPrecommit (consensusCache (state_of (onMessage d now m n))) h v
          \<and> \<not> flag_at ImplicitPrecommit (consensusCache (steps d n ss)) h v)
   \<and> (flag_at Finalized (consensusCache n) h v \<and> \<not> flag_at ImplicitFinalized (consensusCache n) h v
      \<longrightarrow> \<not> flag_at ImplicitFinalized (consensusCache (state_of (onMessage d now m n))) h v
          \<and> \<not> flag_at ImplicitFinalized (consensusCache (steps d n ss)) h v)
   \<and> \<not> flag_at ImplicitPrevote (consensusCache (steps d (new_Node now0 addr) ss)) h v
   \<and> \<not> flag_at ImplicitPrecommit (consensusCache (steps d (new_Node now0 addr) ss)) h v
   \<and> \<not> flag_at ImplicitFinalized (consensusCache (steps d (new_Node now0 addr) ss)) h v"
proof -
  have a: "\<not> flag_at P (consensusCache n) h v \<Longrightarrow>
      \<not> flag_at P (consensusCache (state_of (onMessage d now m n))) h v
      \<and> \<not> flag_at P (consensusCache (steps d n ss)) h v"
    if "P = ImplicitPrevote \<or> P = ImplicitPrecommit \<or> P = ImplicitFinalized" for P
    using onMessage_implicit[OF that, of d now m n h v] steps_implicit[OF that, of d n ss h v]
    by blast
  have b: "\<not> flag_at P (consensusCache (steps d (new_Node now0 addr) ss)) h v"
    if "P = ImplicitPrevote \<or> P = ImplicitPrecommit \<or> P = ImplicitFinalized" for P
    using steps_implicit[OF that, of d "new_Node now0 addr" ss h v] new_Node_no_flags by blast
  show ?thesis
    using a[of ImplicitPrevote] a[of ImplicitPrecommit] a[of ImplicitFinalized]
      b[of ImplicitPrevote] b[of ImplicitPrecommit] b[of ImplicitFinalized]
    by simp
qed

theorem implicit_never_set_once_explicit_witness:
  "flag_at Prevote (consensusCache ((new_Node 0 Null)\<lparr>consensusCache :=
        [(5, [''V'' \<mapsto> empty_info\<lparr>Prevote := True\<rparr>])]\<rparr>)) 5 ''V''
   \<and> \<not> flag_at ImplicitPrevote (consensusCache ((new_Node 0 Null)\<lparr>consensusCache :=
        [(5, [''V'' \<mapsto> empty_info\<lparr>Prevote := True\<rparr>])]\<rparr>)) 5 ''V''
   \<and> \<not> flag_at ImplicitPrevote (consensusCache (steps sample_deps
        ((new_Node 0 Null)\<lparr>consensusCache := [(5, [''V'' \<mapsto> empty_info\<lparr>Prevote := True\<rparr>])]\<rparr>)
        [Receive 2 (MsgAfgReceivedPrevote 6 ''0x06'' ''V'')])) 5 ''V''"
proof -
  let ?n = "(new_Node 0 Null)\<lparr>consensusCache := [(5, [''V'' \<mapsto> empty_info\<lparr>Prevote := True\<rparr>])]\<rparr>"
  have h1: "flag_at Prevote (consensusCache ?n) 5 ''V''"
    by (simp add: flag_at_def lookup_def)
  have h2: "\<not> flag_at ImplicitPrevote (consensusCache ?n) 5 ''V''"
    by (simp add: flag_at_def lookup_def empty_info_def)
  from implicit_never_set_once_explicit [of ?n 5 "''V''" sample_deps 2
      "MsgAfgReceivedPrevote 6 ''0x06'' ''V''" "[Receive 2 (MsgAfgReceivedPrevote 6 ''0x06'' ''V'')]" 0 Null]
    h1 h2
  show ?thesis by blast
qed


lemma lookup_initialise_present:
  assumes "truthy a"
  shows "\<exists>r i. lookup (initialiseConsensusView h a c) h = Some r \<and> r (String_of a) = Some i"
proof -
  define c1 where "c1 = (if lookup c h = None then create_row h Map.empty c else c)"
  have "lookup c1 h \<noteq> None"
    unfolding c1_def by (simp add: lookup_create_row)
  then obtain r where r: "lookup c1 h = Some r" by blast
  have i: "initialiseConsensusView h a c =
      (if r (String_of a) = None then set_row h (r(String_of a \<mapsto> empty_info)) c1 else c1)"
    unfolding initialiseConsensusView_def Let_def c1_def[symmetric] using assms r by simp
  show ?thesis
  proof (cases "r (String_of a)")
    case None
    then show ?thesis using r by (simp add: i lookup_set_row)
  next
    case (Some x)
    then show ?thesis using r by (simp add: i)
  qed
qed

text \<open>
  Called on its own, \<^verbatim>\<open>markImplicitlyFinalized\<close> sets the implicit flags together with the
  explicit ones. In Node.ts only the continuation function of \<^verbatim>\<open>onAfgFinalized\<close> calls it,
  and that function is never run.
\<close>

lemma markImplicitlyFinalized_sets_both:
  assumes "truthy addr"
  shows "\<exists>c'. markImplicitlyFinalized addr h c = Inr c'
     \<and> flag_at Prevote c' h (String_of addr) \<and> flag_at ImplicitPrevote c' h (String_of addr)
     \<and> flag_at Precommit c' h (String_of addr) \<and> flag_at ImplicitPrecommit c' h (String_of addr)
     \<and> flag_at Finalized c' h (String_of addr) \<and> flag_at ImplicitFinalized c' h (String_of addr)"
proof -
  let ?g = "\<lambda>info. info\<lparr>Finalized := True, FinalizedHeight := Some h,
                    ImplicitFinalized := True,
                    Prevote := True, Precommit := True,
                    ImplicitPrevote := True, ImplicitPrecommit := True\<rparr>"
  let ?c0 = "initialiseConsensusView h addr c"
  obtain r i where r: "lookup ?c0 h = Some r" and i: "r (String_of addr) = Some i"
    using lookup_initialise_present[OF assms] by blast
  have m: "markImplicitlyFinalized addr h c = Inr (set_row h (r(String_of addr \<mapsto> ?g i)) ?c0)"
    using r i by (simp add: markImplicitlyFinalized_def update_info_def)
  have "flag_at P (set_row h (r(String_of addr \<mapsto> ?g i)) ?c0) h (String_of addr) = P (?g i)" for P
    using flag_at_set_row_same[OF r, of P "r(String_of addr \<mapsto> ?g i)" "String_of addr"] by simp
  then show ?thesis using m by simp
qed

section \<open>The bound of the cache\<close>

lemma lookup_None_keys: "lookup c h = None \<longleftrightarrow> h \<notin> set (keys c)"
  by (simp add: lookup_def keys_def map_of_eq_None_iff)

lemma wf_create_row:
  assumes "wf_cache c" "lookup c h = None"
  shows "wf_cache (create_row h r c)"
proof -
  have h: "h \<notin> set (map fst c)" using assms(2) by (simp add: lookup_None_keys keys_def)
  show ?thesis
    using assms(1) distinct_create_row[OF h] key_order_create_row[OF h]
    by (simp add: wf_cache_def keys_def)
qed

lemma wf_set_row: "wf_cache c \<Longrightarrow> wf_cache (set_row h r c)"
  by (simp add: wf_cache_def keys_def keys_set_row)

lemma wf_initialise:
  assumes "wf_cache c"
  shows "wf_cache (initialiseConsensusView h a c)"
proof -
  define c1 where "c1 = (if lookup c h = None then create_row h Map.empty c else c)"
  have c1: "wf_cache c1" unfolding c1_def using assms by (simp add: wf_create_row)
  have i: "initialiseConsensusView h a c =
      (if truthy a
         then (case lookup c1 h of
                 None \<Rightarrow> c1
               | Some r \<Rightarrow>
                   if r (String_of a) = None
                   then set_row h (r(String_of a \<mapsto> empty_info)) c1
                   else c1)
         else c1)"
    unfolding initialiseConsensusView_def c1_def Let_def ..
  show ?thesis unfolding i using c1 by (simp add: wf_set_row split: option.splits)
qed

lemma wf_update_info:
  assumes "wf_cache c" "update_info h w g c = Inl (e, c') \<or> update_info h w g c = Inr c'"
  shows "wf_cache c'"
proof (cases "lookup c h")
  case None
  then show ?thesis using assms by (simp add: update_info_def)
next
  case (Some r)
  then show ?thesis using assms by (cases "r w") (auto simp: update_info_def wf_set_row)
qed

lemma wf_vote:
  assumes "wf_cache c"
    and r: "and_then (update_info h w g (initialiseConsensusView h a c))
                (\<lambda>c. drop_value (backfill a' from f c)) = r"
    and o: "r = Inl (e, c') \<or> r = Inr c'"
  shows "wf_cache c'"
proof (cases "update_info h w g (initialiseConsensusView h a c)")
  case (Inl x)
  then have "r = Inl x" using r by (simp add: and_then_def)
  then have "update_info h w g (initialiseConsensusView h a c) = Inl (e, c')" using o Inl by auto
  then show ?thesis using wf_update_info[OF wf_initialise[OF assms(1)]] by blast
next
  case (Inr c1)
  then have "r = Inr c1" using r by (simp add: and_then_def drop_value_def backfill_value)
  then have "update_info h w g (initialiseConsensusView h a c) = Inr c'" using o Inr by auto
  then show ?thesis using wf_update_info[OF wf_initialise[OF assms(1)]] by blast
qed

lemma wf_notify:
  assumes "wf_cache c"
    and r: "update_info h w g (initialiseConsensusView h a c) = r"
    and o: "r = Inl (e, c') \<or> r = Inr c'"
  shows "wf_cache c'"
  using wf_update_info[OF wf_initialise[OF assms(1)], where h = h and w = w and g = g and e = e and c' = c'] r o
  by blast

lemma cache_handler_wf:
  assumes "\<And>e c'. r = Inl (e, c') \<or> r = Inr c' \<Longrightarrow> wf_cache c'"
  shows "wf_cache (consensusCache (state_of (and_then (on_cache n r)
            (\<lambda>n1. Inr (emit EvConsensusInfo n1)))))"
proof (cases r)
  case (Inl x)
  obtain e c' where x: "x = (e, c')" by (cases x)
  have "wf_cache c'" using assms[of e c'] Inl x by simp
  then show ?thesis using Inl x by (simp add: on_cache_def and_then_def state_of_def)
next
  case (Inr c')
  have "wf_cache c'" using assms[of undefined c'] Inr by simp
  then show ?thesis using Inr by (simp add: on_cache_def and_then_def state_of_def emit_def)
qed

lemma handlers_wf:
  assumes w: "wf_cache (consensusCache n)"
  shows "wf_cache (consensusCache (state_of (onNotifyFinalized b h n)))"
    and "wf_cache (consensusCache (state_of (onAfgFinalized h b n)))"
    and "wf_cache (consensusCache (state_of (onAfgReceivedPrecommit h v n)))"
    and "wf_cache (consensusCache (state_of (onAfgReceivedPrevote h v n)))"
proof -
  show "wf_cache (consensusCache (state_of (onNotifyFinalized b h n)))"
    unfolding onNotifyFinalized_def
    by (rule cache_handler_wf) (rule wf_notify[OF w refl])
  show "wf_cache (consensusCache (state_of (onAfgFinalized h b n)))"
    unfolding onAfgFinalized_def Let_def markFinalized_def
    by (rule cache_handler_wf) (rule wf_vote[OF w refl])
  show "wf_cache (consensusCache (state_of (onAfgReceivedPrecommit h v n)))"
    unfolding onAfgReceivedPrecommit_def Let_def
    by (rule cache_handler_wf) (rule wf_vote[OF w refl])
  show "wf_cache (consensusCache (state_of (onAfgReceivedPrevote h v n)))"
    unfolding onAfgReceivedPrevote_def Let_def
    by (rule cache_handler_wf) (rule wf_vote[OF w refl])
qed

lemma dispatch_wf:
  assumes w: "wf_cache (consensusCache n)"
  shows "wf_cache (consensusCache (state_of (dispatch d now m n)))"
proof -
  obtain n1 where c: "consensusCache n1 = consensusCache n"
    and e: "dispatch d now m n =
       (case m of
          MsgSystemInterval si \<Rightarrow> Inr (onSystemInterval d now si n1)
        | MsgNotifyFinalized b h \<Rightarrow> onNotifyFinalized b h n1
        | MsgAfgFinalized h b \<Rightarrow> onAfgFinalized h b n1
        | MsgAfgReceivedPrecommit h b v \<Rightarrow> onAfgReceivedPrecommit h v n1
        | MsgAfgReceivedPrevote h b v \<Rightarrow> onAfgReceivedPrevote h v n1
        | MsgAfgAuthoritySet i h k s \<Rightarrow> onAfgAuthoritySet d i h k s n1
        | MsgOther \<Rightarrow> Inr n1)"
    using dispatch_state[of n d now m] by blast
  have w1: "wf_cache (consensusCache n1)" using w c by simp
  show ?thesis
  proof (cases m)
    case (MsgSystemInterval si)
    then show ?thesis using w1 e by (simp add: state_of_def onSystemInterval_frame)
  next
    case (MsgNotifyFinalized b h)
    then show ?thesis using e handlers_wf(1)[OF w1, of b h] by simp
  next
    case (MsgAfgFinalized h b)
    then show ?thesis using e handlers_wf(2)[OF w1, of h b] by simp
  next
    case (MsgAfgReceivedPrecommit h b v)
    then show ?thesis using e handlers_wf(3)[OF w1, of h v] by simp
  next
    case (MsgAfgReceivedPrevote h b v)
    then show ?thesis using e handlers_wf(4)[OF w1, of h v] by simp
  next
    case (MsgAfgAuthoritySet i h x s)
    have "consensusCache (state_of (onAfgAuthoritySet d i h x s n1)) = consensusCache n1"
      by (simp add: onAfgAuthoritySet_def state_of_def emit_def Let_def split: option.splits)
    then show ?thesis using w1 e MsgAfgAuthoritySet by simp
  next
    case MsgOther
    then show ?thesis using w1 e by (simp add: state_of_def)
  qed
qed

lemma wf_drop: "wf_cache c \<Longrightarrow> wf_cache (drop j c)"
  by (simp add: wf_cache_def keys_def key_order_def drop_map[symmetric] sorted_wrt_drop
      del: drop_map)

lemma wf_truncate_keys: "wf_cache c \<Longrightarrow> wf_cache (truncate_keys m c)"
  by (simp add: truncate_keys_drop wf_cache_def wf_drop[unfolded wf_cache_def])

lemma onMessage_wf:
  assumes w: "wf_cache (consensusCache n)"
  shows "wf_cache (consensusCache (state_of (onMessage d now m n)))"
proof (cases "dispatch d now m n")
  case (Inl x)
  then have "state_of (onMessage d now m n) = state_of (dispatch d now m n)"
    by (simp add: onMessage_def and_then_def)
  then show ?thesis using dispatch_wf[OF w, of d now m] by simp
next
  case (Inr n1)
  then have "wf_cache (consensusCache n1)" using dispatch_wf[OF w, of d now m]
    by (simp add: state_of_def)
  then show ?thesis using Inr
    by (simp add: onMessage_def and_then_def state_of_def truncateBlockCache_def wf_truncate_keys)
qed

lemma step_wf:
  assumes w: "wf_cache (consensusCache n)"
  shows "wf_cache (consensusCache (step d n s))"
proof (cases s)
  case (Receive now m)
  then show ?thesis using w onMessage_wf[OF w, of d now m] by simp
next
  case (TimeoutCheck now p)
  then show ?thesis using w
    by (simp add: timeoutCheck_def updateLatency_def disconnect_def emit_def Let_def)
next
  case BlockTimer
  then show ?thesis using w by (simp add: block_timer_callback_def emit_def split: list.splits)
qed (use w in \<open>simp_all add: disconnect_def emit_def\<close>)

lemma steps_wf:
  assumes "wf_cache (consensusCache n)"
  shows "wf_cache (consensusCache (steps d n ss))"
  using assms
proof (induction ss arbitrary: n)
  case Nil
  then show ?case by (simp add: steps_def)
next
  case (Cons s ss)
  have "wf_cache (consensusCache (steps d (step d n s) ss))"
    by (rule Cons.IH) (rule step_wf[OF Cons.prems])
  then show ?case by (simp add: steps_def)
qed

lemma index_keys_sorted:
  assumes "key_order ks" "\<forall>k \<in> set ks. is_index k"
  shows "sorted_wrt (<) ks"
  using assms(1) unfolding key_order_def
  by (rule sorted_wrt_mono_rel[rotated]) (use assms(2) in auto)

lemma pruned_below_retained:
  assumes "sorted_wrt (<) (ks :: int list)" "k \<in> set ks - set (drop j ks)" "h \<in> set (drop j ks)"
  shows "k < h"
proof -
  have "ks = take j ks @ drop j ks" by simp
  then have "sorted_wrt (<) (take j ks @ drop j ks)" using assms(1) by simp
  then have "\<forall>x \<in> set (take j ks). \<forall>y \<in> set (drop j ks). x < y"
    by (simp only: sorted_wrt_append) blast
  moreover have "k \<in> set (take j ks)"
    using assms(2) by (metis DiffD1 DiffD2 UnE append_take_drop_id set_append)
  ultimately show ?thesis using assms(3) by blast
qed

text \<open>
  C3, as the code has it. After every message of a session whose handling returns, the
  cache holds at most \<open>MAX_BLOCKS_IN_NODE_CACHE + 2\<close> distinct heights: the last ones in the
  key order of the cache before pruning. When all heights are array indices, every pruned
  height is below every retained one.
\<close>

theorem cache_keeps_last_heights:
  assumes "n = steps d (new_Node now0 addr) ss" and "onMessage d now m n = Inr n'"
  shows "\<exists>n1. dispatch d now m n = Inr n1
           \<and> distinct (keys (consensusCache n'))
           \<and> length (keys (consensusCache n')) \<le> MAX_BLOCKS_IN_NODE_CACHE d + 2
           \<and> keys (consensusCache n') =
               drop (length (keys (consensusCache n1)) - (MAX_BLOCKS_IN_NODE_CACHE d + 2))
                 (keys (consensusCache n1))
           \<and> ((\<forall>k \<in> set (keys (consensusCache n1)). is_index k) \<longrightarrow>
                (\<forall>k \<in> set (keys (consensusCache n1)) - set (keys (consensusCache n')).
                   \<forall>h \<in> set (keys (consensusCache n')). k < h))"
proof -
  let ?M = "MAX_BLOCKS_IN_NODE_CACHE d"
  have w: "wf_cache (consensusCache n)"
    unfolding assms(1) by (rule steps_wf) (simp add: new_Node_def wf_cache_def keys_def key_order_def)
  from assms(2) obtain n1 where n1: "dispatch d now m n = Inr n1"
    and n': "n' = truncateBlockCache d n1"
    by (cases "dispatch d now m n") (auto simp: onMessage_def and_then_def)
  have w1: "wf_cache (consensusCache n1)"
    using dispatch_wf[OF w, of d now m] n1 by (simp add: state_of_def)
  let ?c = "consensusCache n1"
  have c': "consensusCache n' = drop (length ?c - (?M + 2)) ?c"
    using w1 by (simp add: n' truncateBlockCache_def truncate_keys_drop wf_cache_def)
  have k': "keys (consensusCache n') = drop (length (keys ?c) - (?M + 2)) (keys ?c)"
    by (simp add: c' keys_def drop_map)
  have 1: "distinct (keys (consensusCache n'))"
    using w1 unfolding k' by (simp add: wf_cache_def)
  have 2: "length (keys (consensusCache n')) \<le> ?M + 2"
    unfolding k' by simp
  have 3: "\<forall>k \<in> set (keys ?c) - set (keys (consensusCache n')).
             \<forall>h \<in> set (keys (consensusCache n')). k < h"
    if "\<forall>k \<in> set (keys ?c). is_index k"
  proof -
    have "sorted_wrt (<) (keys ?c)"
      using w1 that by (intro index_keys_sorted) (simp_all add: wf_cache_def)
    then show ?thesis unfolding k' using pruned_below_retained by blast
  qed
  show ?thesis using n1 1 2 3 k' by blast
qed

text \<open>Evaluation of the session on concrete messages.\<close>

lemmas eval_defs = steps_def onMessage_def dispatch_def and_then_def state_of_def sample_deps_def
      onAfgReceivedPrevote_def on_cache_def update_info_def initialiseConsensusView_def
      backfill_value drop_value_def lookup_def keys_def is_index_def extractVoter_def emit_def
      truncateBlockCache_def truncate_keys_def delete_row_def MAX_BLOCKS_IN_NODE_CACHE_def
      new_Node_def Let_def

theorem cache_keeps_last_heights_witness:
  "\<exists>n'. onMessage (sample_deps\<lparr>MAX_BLOCKS_IN_CHAIN_CACHE := 1\<rparr>) 4
            (MsgAfgReceivedPrevote 4 ''0x04'' ''V'')
            (steps (sample_deps\<lparr>MAX_BLOCKS_IN_CHAIN_CACHE := 1\<rparr>) (new_Node 0 Null)
               [Receive 1 (MsgAfgReceivedPrevote 1 ''0x01'' ''V''),
                Receive 2 (MsgAfgReceivedPrevote 2 ''0x02'' ''V''),
                Receive 3 (MsgAfgReceivedPrevote 3 ''0x03'' ''V'')]) = Inr n'
        \<and> keys (consensusCache n') = [2, 3, 4]
        \<and> length (keys (consensusCache n')) \<le> 3"
proof -
  let ?d = "sample_deps\<lparr>MAX_BLOCKS_IN_CHAIN_CACHE := 1\<rparr>"
  let ?n = "steps ?d (new_Node 0 Null)
               [Receive 1 (MsgAfgReceivedPrevote 1 ''0x01'' ''V''),
                Receive 2 (MsgAfgReceivedPrevote 2 ''0x02'' ''V''),
                Receive 3 (MsgAfgReceivedPrevote 3 ''0x03'' ''V'')]"
  let ?m = "MsgAfgReceivedPrevote 4 ''0x04'' ''V''"
  have e: "onMessage ?d 4 ?m ?n = Inr (state_of (onMessage ?d 4 ?m ?n))"
    by (simp add: eval_defs)
  have k: "keys (consensusCache (state_of (onMessage ?d 4 ?m ?n))) = [2, 3, 4]"
    by (simp add: eval_defs)
  from cache_keeps_last_heights [OF refl e]
  have "length (keys (consensusCache (state_of (onMessage ?d 4 ?m ?n))))
      \<le> MAX_BLOCKS_IN_NODE_CACHE ?d + 2"
    by blast
  then have "length (keys (consensusCache (state_of (onMessage ?d 4 ?m ?n)))) \<le> 3"
    by (simp add: MAX_BLOCKS_IN_NODE_CACHE_def)
  then show ?thesis using e k by blast
qed

text \<open>
  C3, as stated, fails: with a maximum of 1, three votes at heights 1, 2 and 3 leave three
  heights in the cache.
\<close>

theorem cache_exceeds_maximum:
  "\<not> length (keys (consensusCache (steps (sample_deps\<lparr>MAX_BLOCKS_IN_CHAIN_CACHE := 1\<rparr>)
        (new_Node 0 Null)
        [Receive 1 (MsgAfgReceivedPrevote 1 ''0x01'' ''V''),
         Receive 2 (MsgAfgReceivedPrevote 2 ''0x02'' ''V''),
         Receive 3 (MsgAfgReceivedPrevote 3 ''0x03'' ''V'')])))
      \<le> MAX_BLOCKS_IN_NODE_CACHE (sample_deps\<lparr>MAX_BLOCKS_IN_CHAIN_CACHE := 1\<rparr>)"
  by (simp add: eval_defs)

text \<open>
  Heights that are not array indices are listed in order of creation, so pruning keeps
  the heights created last: here the highest one, created first, is pruned.
\<close>

lemma non_index_heights_pruned_by_creation:
  "keys (consensusCache (steps (sample_deps\<lparr>MAX_BLOCKS_IN_CHAIN_CACHE := 1\<rparr>)
        (new_Node 0 Null)
        [Receive 1 (MsgAfgReceivedPrevote 4294967300 ''0x01'' ''V''),
         Receive 2 (MsgAfgReceivedPrevote 4294967299 ''0x02'' ''V''),
         Receive 3 (MsgAfgReceivedPrevote 4294967298 ''0x03'' ''V''),
         Receive 4 (MsgAfgReceivedPrevote 4294967297 ''0x04'' ''V'')]))
     = [4294967299, 4294967298, 4294967297]"
  by (simp add: eval_defs)

end
